theory Spec2Isabelle
  imports Complex_Main "HOL-Library.Multiset"
begin

section \<open>Strings\<close>

text \<open>
  JavaScript strings are modelled as \<^typ>\<open>string\<close> (lists of 8-bit characters); the
  model covers ASCII text and the no-break space. \<open>String.prototype.toLowerCase\<close> maps
  \<open>A\<close>..\<open>Z\<close> to \<open>a\<close>..\<open>z\<close> and leaves every other character alone;
  \<open>String.prototype.includes\<close> (here \<open>includesStr\<close>) is the test for a contiguous
  substring.
\<close>

definition upperChars :: string where
  "upperChars = ''ABCDEFGHIJKLMNOPQRSTUVWXYZ''"

definition lowerChars :: string where
  "lowerChars = ''abcdefghijklmnopqrstuvwxyz''"

definition toLowerChar :: "char \<Rightarrow> char" where
  "toLowerChar c = (case map_of (zip upperChars lowerChars) c of Some l \<Rightarrow> l | None \<Rightarrow> c)"

definition toLowerCase :: "string \<Rightarrow> string" where
  "toLowerCase s = map toLowerChar s"

primrec startsWith :: "string \<Rightarrow> string \<Rightarrow> bool" where
  "startsWith s [] = True"
| "startsWith s (k # ks) = (case s of [] \<Rightarrow> False | c # cs \<Rightarrow> c = k \<and> startsWith cs ks)"

primrec includesStr :: "string \<Rightarrow> string \<Rightarrow> bool" where
  "includesStr [] k = (k = [])"
| "includesStr (c # cs) k = (startsWith (c # cs) k \<or> includesStr cs k)"

text \<open>\<open>words.some(word => text.includes(word))\<close>\<close>

definition includesAny :: "string \<Rightarrow> string list \<Rightarrow> bool" where
  "includesAny t ks = list_ex (includesStr t) ks"

section \<open>Data model (types.ts)\<close>

datatype Severity = critical | high | medium | low

record author =
  username :: string
  name :: string
  verified :: bool

text \<open>\<open>views\<close> is optional in \<open>XPost\<close>: \<open>None\<close> is JavaScript's \<open>undefined\<close>.\<close>

record engagement =
  likes :: int
  retweets :: int
  replies :: int
  quotes :: int
  views :: "int option"

text \<open>
  \<open>post_id\<close> and \<open>post_text\<close> are the fields \<open>id\<close> and \<open>text\<close> of \<open>XPost\<close>.
  \<open>timestamp\<close> holds the value of \<open>new Date(post.timestamp).getTime()\<close>, the epoch
  milliseconds of the ISO-8601 string the fetch layer stores (always a valid date: it is
  \<open>created_at\<close> or \<open>new Date().toISOString()\<close>). The media list is not read by the
  pipeline and is left out.
\<close>

record xpost =
  post_id :: string
  post_text :: string
  author :: author
  url :: string
  timestamp :: int
  engagement :: engagement

record totalEngagement =
  totalLikes :: int
  totalRetweets :: int
  totalReplies :: int
  totalQuotes :: int
  totalViews :: int

text \<open>A post with the given id, text, likes and timestamp, used for concrete inputs.\<close>

definition examplePost :: "string \<Rightarrow> string \<Rightarrow> int \<Rightarrow> int \<Rightarrow> xpost" where
  "examplePost i t l ts =
     \<lparr>post_id = i, post_text = t,
      author = \<lparr>username = ''user'' @ i, name = ''User'', verified = False\<rparr>,
      url = ''https://twitter.com/user/status/'' @ i, timestamp = ts,
      engagement = \<lparr>likes = l, retweets = 0, replies = 0, quotes = 0, views = Some 0\<rparr>\<rparr>"

section \<open>Engagement filter\<close>

text \<open>
  \<open>filterLowEngagementPosts\<close>: the predicate of the filter reads likes, retweets, replies
  and views. \<open>undefined > 0\<close> is false.
\<close>

definition hasEngagement :: "xpost \<Rightarrow> bool" where
  "hasEngagement post =
     (let e = engagement post in
      likes e > 0 \<or> retweets e > 0 \<or> replies e > 0 \<or>
      (case views e of None \<Rightarrow> False | Some v \<Rightarrow> v > 0))"

definition filterLowEngagementPosts :: "xpost list \<Rightarrow> xpost list" where
  "filterLowEngagementPosts ps = filter hasEngagement ps"

section \<open>Metrics and scoring\<close>

text \<open>\<open>calculateTotalEngagement\<close>: a left fold; \<open>views || 0\<close> reads a missing count as 0.\<close>

definition zeroEngagement :: totalEngagement where
  "zeroEngagement =
     \<lparr>totalLikes = 0, totalRetweets = 0, totalReplies = 0, totalQuotes = 0, totalViews = 0\<rparr>"

definition addEngagement :: "totalEngagement \<Rightarrow> xpost \<Rightarrow> totalEngagement" where
  "addEngagement acc post =
     \<lparr>totalLikes = totalLikes acc + likes (engagement post),
      totalRetweets = totalRetweets acc + retweets (engagement post),
      totalReplies = totalReplies acc + replies (engagement post),
      totalQuotes = totalQuotes acc + quotes (engagement post),
      totalViews = totalViews acc + (case views (engagement post) of None \<Rightarrow> 0 | Some v \<Rightarrow> v)\<rparr>"

definition calculateTotalEngagement :: "xpost list \<Rightarrow> totalEngagement" where
  "calculateTotalEngagement ps = foldl addEngagement zeroEngagement ps"

definition totalReactions :: "xpost list \<Rightarrow> int" where
  "totalReactions ps =
     totalLikes (calculateTotalEngagement ps) + totalRetweets (calculateTotalEngagement ps)"

definition shootingKeywords :: "string list" where
  "shootingKeywords = [''shooting'', ''shots fired'', ''active shooter'', ''gunfire'']"

definition criticalKeywords :: "string list" where
  "criticalKeywords = [''emergency'', ''evacuate'', ''police'', ''SWAT'', ''lockdown'']"

definition hasShooting :: "xpost list \<Rightarrow> bool" where
  "hasShooting ps = list_ex (\<lambda>post. includesAny (toLowerCase (post_text post)) shootingKeywords) ps"

definition hasCriticalKeyword :: "xpost list \<Rightarrow> bool" where
  "hasCriticalKeyword ps =
     list_ex (\<lambda>post. includesAny (toLowerCase (post_text post)) criticalKeywords) ps"

definition determineSeverity :: "xpost list \<Rightarrow> Severity" where
  "determineSeverity ps =
     (if ps = [] then low
      else if hasShooting ps then (if totalReactions ps > 500 then critical else high)
      else if hasCriticalKeyword ps \<and> totalReactions ps > 1000 then critical
      else if hasCriticalKeyword ps \<and> totalReactions ps > 500 then high
      else if totalReactions ps > 1000 then high
      else if totalReactions ps > 500 then medium
      else low)"

text \<open>\<open>severityOrder\<close> of the final sort: critical 4, high 3, medium 2, low 1.\<close>

fun severityOrder :: "Severity \<Rightarrow> int" where
  "severityOrder critical = 4"
| "severityOrder high = 3"
| "severityOrder medium = 2"
| "severityOrder low = 1"

subsection \<open>Sentiment\<close>

datatype Sentiment = positive | neutral | negative

record sentimentResult =
  sentiment :: Sentiment
  confidence :: rat
  verifiedCount :: nat

definition negativeWords :: "string list" where
  "negativeWords = [''false'', ''hoax'', ''fake'', ''debunked'', ''unconfirmed'', ''rumor'']"

definition positiveWords :: "string list" where
  "positiveWords = [''confirmed'', ''verified'', ''official'', ''police'', ''authorities'']"

text \<open>The three counters of the \<open>forEach\<close> in \<open>analyzeSentiment\<close>, and the verified count.\<close>

definition hasNegative :: "xpost \<Rightarrow> bool" where
  "hasNegative post = includesAny (toLowerCase (post_text post)) negativeWords"

definition hasPositive :: "xpost \<Rightarrow> bool" where
  "hasPositive post = includesAny (toLowerCase (post_text post)) positiveWords"

definition negativeCount :: "xpost list \<Rightarrow> nat" where
  "negativeCount ps = length (filter hasNegative ps)"

definition positiveCount :: "xpost list \<Rightarrow> nat" where
  "positiveCount ps = length (filter (\<lambda>p. \<not> hasNegative p \<and> hasPositive p) ps)"

definition neutralCount :: "xpost list \<Rightarrow> nat" where
  "neutralCount ps = length (filter (\<lambda>p. \<not> hasNegative p \<and> \<not> hasPositive p) ps)"

text \<open>
  \<open>confidence\<close> is \<open>Math.max(positive, negative, neutral) / total\<close>. For an empty list
  JavaScript yields \<open>NaN\<close>, for which every comparison is false; the model yields 0
  there, which the only reader (\<open>confidence > 0.6\<close>) cannot tell apart.
\<close>

definition analyzeSentiment :: "xpost list \<Rightarrow> sentimentResult" where
  "analyzeSentiment ps =
     (let pos = positiveCount ps; neg = negativeCount ps; neu = neutralCount ps;
          total = length ps
      in \<lparr>sentiment = (if neg > pos then negative else if pos > neu then positive else neutral),
          confidence = of_nat (max pos (max neg neu)) / of_nat total,
          verifiedCount = length (filter (\<lambda>p. verified (author p)) ps)\<rparr>)"

text \<open>
  The reliability gate of \<open>fetchRealTimeIncidents\<close> (the same expression on the custom-query
  path and on the default path), as a function of what it reads: the sentiment result and
  \<open>posts.length\<close>. A group is skipped when \<open>!isReliable && posts.length < 2\<close>.
\<close>

definition isReliable :: "sentimentResult \<Rightarrow> nat \<Rightarrow> bool" where
  "isReliable s n =
     (sentiment s \<noteq> negative \<and> (verifiedCount s > 0 \<or> confidence s > 6 / 10 \<or> n \<ge> 1))"

definition gateSkips :: "sentimentResult \<Rightarrow> nat \<Rightarrow> bool" where
  "gateSkips s n = (\<not> isReliable s n \<and> n < 2)"

definition groupSkipped :: "xpost list \<Rightarrow> bool" where
  "groupSkipped ps = gateSkips (analyzeSentiment ps) (length ps)"

text \<open>A post whose only non-zero metric is its quote count.\<close>

definition quotedOnlyPost :: xpost where
  "quotedOnlyPost =
     \<lparr>post_id = ''1'', post_text = ''shots fired near campus'',
      author = \<lparr>username = ''a'', name = ''A'', verified = False\<rparr>,
      url = ''https://twitter.com/a/status/1'', timestamp = 0,
      engagement = \<lparr>likes = 0, retweets = 0, replies = 0, quotes = 5, views = Some 0\<rparr>\<rparr>"

section \<open>Regular expressions\<close>

text \<open>
  The patterns of the source are written as terms of \<open>regex\<close> and run by a backtracking
  matcher that follows the ECMAScript semantics: alternatives are tried left to right,
  quantifiers are greedy, an iteration of a quantifier that consumes nothing is rejected,
  and \<open>String.prototype.match\<close> without the \<open>g\<close> flag returns the first match at the
  leftmost start position. \<open>Chr p\<close> matches one character satisfying \<open>p\<close>,
  \<open>Upto n r\<close> is \<open>r{0,n}\<close> and \<open>Grp i r\<close> is the capture group \<open>i\<close>.
\<close>

datatype regex =
    Chr "char \<Rightarrow> bool"
  | Eps
  | Seq regex regex
  | Alt regex regex
  | Star regex
  | Upto nat regex
  | Grp nat regex

type_synonym captures = "(nat \<times> string) list"

type_synonym mstate = "string \<times> captures"

fun rsize :: "regex \<Rightarrow> nat" where
  "rsize (Chr p) = 1"
| "rsize Eps = 1"
| "rsize (Seq a b) = rsize a + rsize b + 1"
| "rsize (Alt a b) = rsize a + rsize b + 1"
| "rsize (Star r) = rsize r + 1"
| "rsize (Upto n r) = rsize r + n + 1"
| "rsize (Grp i r) = rsize r + 1"

text \<open>
  \<open>runRegex r (s, c)\<close> lists, in the order in which backtracking tries them, the states
  (rest of the input, captures) in which a match of \<open>r\<close> at the start of \<open>s\<close> can end.
\<close>

function runRegex :: "regex \<Rightarrow> mstate \<Rightarrow> mstate list" where
  "runRegex (Chr p) (s, c) = (case s of [] \<Rightarrow> [] | x # t \<Rightarrow> if p x then [(t, c)] else [])"
| "runRegex Eps (s, c) = [(s, c)]"
| "runRegex (Seq a b) (s, c) = concat (map (runRegex b) (runRegex a (s, c)))"
| "runRegex (Alt a b) (s, c) = runRegex a (s, c) @ runRegex b (s, c)"
| "runRegex (Star r) (s, c) =
     concat (map (\<lambda>(s', c'). if length s' < length s then runRegex (Star r) (s', c') else [])
               (runRegex r (s, c))) @ [(s, c)]"
| "runRegex (Upto 0 r) (s, c) = [(s, c)]"
| "runRegex (Upto (Suc k) r) (s, c) =
     concat (map (\<lambda>(s', c'). if length s' < length s then runRegex (Upto k r) (s', c') else [])
               (runRegex r (s, c))) @ [(s, c)]"
| "runRegex (Grp i r) (s, c) =
     map (\<lambda>(s', c'). (s', (i, take (length s - length s') s) # c')) (runRegex r (s, c))"
  by pat_completeness auto
termination
  by (relation "measures [\<lambda>(r, s, c). rsize r, \<lambda>(r, s, c). length s]") auto

text \<open>The equation of \<open>Star\<close> unfolds into itself, so the simplifier uses it on request only.\<close>

declare runRegex.simps(5) [simp del]

primrec searchFrom :: "regex \<Rightarrow> string \<Rightarrow> mstate option" where
  "searchFrom r [] = (case runRegex r ([], []) of [] \<Rightarrow> None | x # _ \<Rightarrow> Some x)"
| "searchFrom r (c # cs) =
     (case runRegex r (c # cs, []) of [] \<Rightarrow> searchFrom r cs | x # _ \<Rightarrow> Some x)"

text \<open>\<open>text.match(pattern)\<close>: the captures of the first match, \<open>None\<close> for \<open>null\<close>.\<close>

definition regexMatch :: "regex \<Rightarrow> string \<Rightarrow> captures option" where
  "regexMatch r s = map_option snd (searchFrom r s)"

definition regexTest :: "regex \<Rightarrow> string \<Rightarrow> bool" where
  "regexTest r s = (regexMatch r s \<noteq> None)"

text \<open>\<open>match[i]\<close>, with \<open>None\<close> for a missing or empty capture (both falsy).\<close>

definition capture :: "nat \<Rightarrow> captures \<Rightarrow> string option" where
  "capture i c = (case map_of c i of None \<Rightarrow> None | Some g \<Rightarrow> if g = [] then None else Some g)"

fun seqs :: "regex list \<Rightarrow> regex" where
  "seqs [] = Eps"
| "seqs [r] = r"
| "seqs (r # rs) = Seq r (seqs rs)"

fun alts :: "regex list \<Rightarrow> regex" where
  "alts [] = Chr (\<lambda>x. False)"
| "alts [r] = r"
| "alts (r # rs) = Alt r (alts rs)"

text \<open>A literal character: \<open>ci\<close> under the \<open>i\<close> flag, \<open>ch\<close> without it.\<close>

definition ci :: "char \<Rightarrow> regex" where
  "ci k = Chr (\<lambda>x. toLowerChar x = toLowerChar k)"

definition ch :: "char \<Rightarrow> regex" where
  "ch k = Chr (\<lambda>x. x = k)"

definition lit :: "string \<Rightarrow> regex" where
  "lit k = seqs (map ci k)"

definition lits :: "string list \<Rightarrow> regex" where
  "lits ks = alts (map lit ks)"

definition plus :: "regex \<Rightarrow> regex" where
  "plus r = Seq r (Star r)"

definition opt :: "regex \<Rightarrow> regex" where
  "opt r = Alt r Eps"

text \<open>
  \<open>\s\<close>, \<open>\d\<close>, the dot, and the classes \<open>[A-Z]\<close> and \<open>[a-z]\<close>, which under the \<open>i\<close> flag
  both match every ASCII letter. The white space of \<open>\s\<close> and of \<open>trim\<close> below 256 is
  the space, the characters 9 to 13 and the no-break space.
\<close>

definition isSpace :: "char \<Rightarrow> bool" where
  "isSpace x =
     (x \<in> set [CHR '' '', CHR 0x09, CHR 0x0A, CHR 0x0B, CHR 0x0C, CHR 0x0D, CHR 0xA0])"

definition isDigit :: "char \<Rightarrow> bool" where
  "isDigit x = (x \<in> set ''0123456789'')"

definition isLetter :: "char \<Rightarrow> bool" where
  "isLetter x = (toLowerChar x \<in> set lowerChars)"

definition isDot :: "char \<Rightarrow> bool" where
  "isDot x = (x \<notin> set [CHR 0x0A, CHR 0x0D])"

text \<open>\<open>\s+\<close>, \<open>[A-Z][a-z]+\<close> and \<open>[A-Z][a-z]+(?:\s+[A-Z][a-z]+)*\<close>.\<close>

definition ws1 :: regex where
  "ws1 = plus (Chr isSpace)"

definition word :: regex where
  "word = Seq (Chr isLetter) (plus (Chr isLetter))"

definition words :: regex where
  "words = Seq word (Star (Seq ws1 word))"

text \<open>\<open>String.prototype.trim\<close>.\<close>

definition trim :: "string \<Rightarrow> string" where
  "trim s = rev (dropWhile isSpace (rev (dropWhile isSpace s)))"

text \<open>
  \<open>Array.prototype.sort(cmp)\<close> is stable; for a consistent comparator its result is the
  stable insertion sort: each element goes before the first element it does not follow.
\<close>

fun insertBy :: "('a \<Rightarrow> 'a \<Rightarrow> int) \<Rightarrow> 'a \<Rightarrow> 'a list \<Rightarrow> 'a list" where
  "insertBy cmp x [] = [x]"
| "insertBy cmp x (y # ys) = (if cmp x y \<le> 0 then x # y # ys else y # insertBy cmp x ys)"

definition sortBy :: "('a \<Rightarrow> 'a \<Rightarrow> int) \<Rightarrow> 'a list \<Rightarrow> 'a list" where
  "sortBy cmp xs = foldr (insertBy cmp) xs []"

section \<open>Location Extractor\<close>

record place =
  place_name :: string
  place_keywords :: "string list"
  place_priority :: int

definition mkPlace :: "string \<Rightarrow> string list \<Rightarrow> int \<Rightarrow> place" where
  "mkPlace n ks p = \<lparr>place_name = n, place_keywords = ks, place_priority = p\<rparr>"

definition specificPlaces :: "place list" where
  "specificPlaces =
    [mkPlace ''Westfield Valley Fair''
       [''westfield valley fair'', ''valley fair mall'', ''valley fair shopping center''] 1,
     mkPlace ''Stanford Shopping Center'' [''stanford shopping center'', ''stanford mall''] 1,
     mkPlace ''Stanford University'' [''stanford university'', ''stanford campus''] 1,
     mkPlace ''Hoover Tower'' [''hoover tower''] 1,
     mkPlace ''Main Quad'' [''main quad''] 1,
     mkPlace ''Green Library'' [''green library''] 1,
     mkPlace ''Santana Row'' [''santana row''] 1,
     mkPlace ''SAP Center'' [''sap center'', ''sap arena'', ''shark tank''] 1,
     mkPlace (''Levi'' @ [CHR 0x27] @ ''s Stadium'')
       [''levi'' @ [CHR 0x27] @ ''s stadium'', ''levis stadium''] 1,
     mkPlace ''Stanford Hospital'' [''stanford hospital'', ''stanford medical center''] 1,
     mkPlace ''Valley Medical Center'' [''valley medical center'', ''vmc''] 1,
     mkPlace ''Stanford'' [''stanford''] 3,
     mkPlace ''Palo Alto'' [''palo alto''] 3,
     mkPlace ''San Jose'' [''san jose''] 3,
     mkPlace ''Menlo Park'' [''menlo park''] 3,
     mkPlace ''Mountain View'' [''mountain view''] 3,
     mkPlace ''Redwood City'' [''redwood city''] 3,
     mkPlace ''East Palo Alto'' [''east palo alto''] 3,
     mkPlace ''Santa Clara'' [''santa clara''] 3,
     mkPlace ''Cupertino'' [''cupertino''] 3,
     mkPlace ''Sunnyvale'' [''sunnyvale''] 3,
     mkPlace ''Fremont'' [''fremont''] 3,
     mkPlace ''Milpitas'' [''milpitas''] 3]"

text \<open>\<open>specificPlaces.sort((a, b) => a.priority - b.priority)\<close>\<close>

definition sortedPlaces :: "place list" where
  "sortedPlaces = sortBy (\<lambda>a b. place_priority a - place_priority b) specificPlaces"

record locationMatch =
  matchLocation :: string
  matchConfidence :: rat

text \<open>The double loop over places and place_keywords: the first place with a keyword in the text.\<close>

definition placeStage :: "string \<Rightarrow> locationMatch option" where
  "placeStage textLower =
     (case List.find (\<lambda>pl. list_ex (includesStr textLower) (place_keywords pl)) sortedPlaces of
        None \<Rightarrow> None
      | Some pl \<Rightarrow>
          Some \<lparr>matchLocation = place_name pl,
                matchConfidence = (if place_priority pl = 1 then 95 / 100 else 75 / 100)\<rparr>)"

definition streetTypes :: "string list" where
  "streetTypes =
     [''Street'', ''St'', ''Avenue'', ''Ave'', ''Road'', ''Rd'', ''Boulevard'', ''Blvd'', ''Drive'',
      ''Dr'', ''Way'', ''Lane'', ''Ln'', ''Circle'', ''Cir'', ''Court'', ''Ct'', ''Place'', ''Pl'']"

text \<open>
  \<open>\d+\s+[A-Z][a-z]+(?:\s+[A-Z][a-z]+)*\s+(?:Street|St|...|Pl)\.?\<close>, the part the three
  address patterns share.
\<close>

definition addressCore :: regex where
  "addressCore =
     seqs [plus (Chr isDigit), ws1, words, ws1, lits streetTypes, opt (ch CHR ''.'')]"

definition addressPatterns :: "regex list" where
  "addressPatterns =
     [seqs [lits [''at'', ''on'', ''near'', ''in''], ws1, Grp 1 addressCore],
      Grp 1 addressCore,
      Grp 1 (seqs [addressCore,
                   opt (seqs [opt (ch CHR '',''), ws1, lits [''in'', ''at'', ''near''], ws1]),
                   words])]"

text \<open>
  One round of the loop over \<open>addressPatterns\<close>: the trimmed capture, if the pattern
  matches and the guard against false positives lets it through.
\<close>

definition tryAddress :: "string \<Rightarrow> regex \<Rightarrow> string option" where
  "tryAddress text pattern =
     (case regexMatch pattern text of
        None \<Rightarrow> None
      | Some c \<Rightarrow>
          (case capture 1 c of
             None \<Rightarrow> None
           | Some g \<Rightarrow>
               (let address = trim g in
                if \<not> includesStr (toLowerCase text) ''alert''
                   \<or> includesStr (toLowerCase address) ''st''
                   \<or> includesStr (toLowerCase address) ''street''
                then Some address else None)))"

text \<open>A \<open>for\<close> loop that returns at the first round that yields a result.\<close>

fun firstSome :: "('a \<Rightarrow> 'b option) \<Rightarrow> 'a list \<Rightarrow> 'b option" where
  "firstSome f [] = None"
| "firstSome f (x # xs) = (case f x of None \<Rightarrow> firstSome f xs | Some y \<Rightarrow> Some y)"

definition addressStage :: "string \<Rightarrow> string option" where
  "addressStage text = firstSome (tryAddress text) addressPatterns"

definition venueTypes :: "string list" where
  "venueTypes =
     [''Mall'', ''Center'', ''Centre'', ''Store'', ''Shop'', ''Restaurant'', ''Cafe'', ''Cafeteria'',
      ''Hospital'', ''Clinic'', ''School'', ''University'', ''Campus'', ''Park'', ''Plaza'', ''Square'',
      ''Stadium'', ''Arena'', ''Building'', ''Tower'', ''Hall'', ''Library'', ''Museum'', ''Theater'',
      ''Theatre'', ''Hotel'', ''Inn'', ''Market'', ''Station'', ''Terminal'', ''Airport'']"

definition buildingPatterns :: "regex list" where
  "buildingPatterns =
     [seqs [lits [''at'', ''in'', ''near''], ws1,
            Grp 1 (seqs [word, Upto 4 (Seq ws1 word), ws1, lits venueTypes])],
      seqs [lits [''at'', ''in'', ''near''], ws1, opt (Seq (lit ''the'') ws1),
            Grp 1 (seqs [word, Upto 4 (Seq ws1 word), ws1,
                         lits [''Building'', ''Tower'', ''Hall'', ''Center'', ''Library'', ''Museum'']])]]"

definition actionWords :: "string list" where
  "actionWords =
     [''shooting'', ''arrested'', ''incident'', ''alert'', ''emergency'', ''police'', ''active'',
      ''reported'']"

definition tryBuilding :: "string \<Rightarrow> regex \<Rightarrow> string option" where
  "tryBuilding text pattern =
     (case regexMatch pattern text of
        None \<Rightarrow> None
      | Some c \<Rightarrow>
          (case capture 1 c of
             None \<Rightarrow> None
           | Some g \<Rightarrow>
               (let building = trim g in
                if \<not> includesAny (toLowerCase building) actionWords
                then Some building else None)))"

definition buildingStage :: "string \<Rightarrow> string option" where
  "buildingStage text = firstSome (tryBuilding text) buildingPatterns"

definition intersectionSide :: regex where
  "intersectionSide =
     Seq word
       (opt (Seq ws1
          (lits [''Street'', ''St'', ''Avenue'', ''Ave'', ''Road'', ''Rd'', ''Boulevard'', ''Blvd'',
                 ''Drive'', ''Dr'', ''Way'', ''Lane'', ''Ln''])))"

definition intersectionPattern :: regex where
  "intersectionPattern =
     seqs [lits [''at'', ''near''], ws1, Grp 1 intersectionSide, ws1, lits [''and'', ''&''], ws1,
           Grp 2 intersectionSide]"

definition intersectionStage :: "string \<Rightarrow> string option" where
  "intersectionStage text =
     (case regexMatch intersectionPattern text of
        None \<Rightarrow> None
      | Some c \<Rightarrow>
          (case (capture 1 c, capture 2 c) of
             (Some a, Some b) \<Rightarrow> Some (trim a @ '' & '' @ trim b)
           | _ \<Rightarrow> None))"

definition neighborhoodPattern :: regex where
  "neighborhoodPattern =
     seqs [lits [''in'', ''at'', ''near''], ws1, opt (Seq (lit ''the'') ws1),
           Grp 1 (seqs [word, Upto 2 (Seq ws1 word), ws1,
                        lits [''neighborhood'', ''area'', ''district'', ''region'', ''vicinity'']])]"

definition neighborhoodStage :: "string \<Rightarrow> string option" where
  "neighborhoodStage text =
     (case regexMatch neighborhoodPattern text of
        None \<Rightarrow> None
      | Some c \<Rightarrow> map_option trim (capture 1 c))"

text \<open>
  \<open>extractPostLocation\<close>, as a function of \<open>post.text\<close>: the stages in the order of the
  source, the first that yields a result wins.
\<close>

definition extractTextLocation :: "string \<Rightarrow> locationMatch" where
  "extractTextLocation text =
     (case placeStage (toLowerCase text) of
        Some r \<Rightarrow> r
      | None \<Rightarrow>
     (case addressStage text of
        Some address \<Rightarrow> \<lparr>matchLocation = address, matchConfidence = 9 / 10\<rparr>
      | None \<Rightarrow>
     (case buildingStage text of
        Some building \<Rightarrow> \<lparr>matchLocation = building, matchConfidence = 85 / 100\<rparr>
      | None \<Rightarrow>
     (case intersectionStage text of
        Some x \<Rightarrow> \<lparr>matchLocation = x, matchConfidence = 85 / 100\<rparr>
      | None \<Rightarrow>
     (case neighborhoodStage text of
        Some n \<Rightarrow> \<lparr>matchLocation = n, matchConfidence = 7 / 10\<rparr>
      | None \<Rightarrow> \<lparr>matchLocation = [], matchConfidence = 0\<rparr>)))))"

definition extractPostLocation :: "xpost \<Rightarrow> locationMatch" where
  "extractPostLocation post = extractTextLocation (post_text post)"

section \<open>Topic Tagger\<close>

definition extractTopics :: "xpost \<Rightarrow> string list" where
  "extractTopics post =
     (let text = toLowerCase (post_text post) in
      (if includesStr text ''shooting'' \<or> includesStr text ''shots fired'' then [''shooting''] else [])
      @ (if includesStr text ''active shooter'' then [''active_shooter''] else [])
      @ (if includesStr text ''arrest'' then [''arrest''] else [])
      @ (if includesStr text ''suspect'' then [''suspect''] else [])
      @ (if includesStr text ''victim'' \<or> includesStr text ''injured'' \<or> includesStr text ''killed''
         then [''casualties''] else [])
      @ (if includesStr text ''evacuat'' then [''evacuation''] else [])
      @ (if includesStr text ''lockdown'' then [''lockdown''] else []))"

section \<open>Notions used to state the properties of the extractor\<close>

text \<open>
  A street type occurs somewhere in the text, without regard to case and possibly inside
  a longer word: this is what the address patterns can see, since they put no word
  boundary after the street type.
\<close>

definition containsStreetType :: "string \<Rightarrow> bool" where
  "containsStreetType text =
     list_ex (\<lambda>k. includesStr (toLowerCase text) (toLowerCase k)) streetTypes"

text \<open>
  The word tokens of a text (its maximal runs of letters), and the texts one of whose
  tokens is a street type. This is the reading of ``street-type token'' of the
  specification; the source has no such function.
\<close>

fun tokensFrom :: "string \<Rightarrow> string \<Rightarrow> string list" where
  "tokensFrom acc [] = (if acc = [] then [] else [acc])"
| "tokensFrom acc (c # cs) =
     (if isLetter c then tokensFrom (acc @ [c]) cs
      else (if acc = [] then [] else [acc]) @ tokensFrom [] cs)"

definition hasStreetTypeToken :: "string \<Rightarrow> bool" where
  "hasStreetTypeToken text =
     list_ex (\<lambda>w. toLowerCase w \<in> set (map toLowerCase streetTypes)) (tokensFrom [] text)"

text \<open>A place of tier 1 has one of its keywords in the lower-cased text.\<close>

definition mentions :: "string \<Rightarrow> place \<Rightarrow> bool" where
  "mentions textLower pl = list_ex (includesStr textLower) (place_keywords pl)"

section \<open>Incident Anchoring Engine\<close>

text \<open>
  The working clusters of \<open>anchorIncidentsToLocations\<close> (the array \<open>incidents\<close>).
  \<open>clusterTimestamp\<close> is the field \<open>timestamp\<close>, held as epoch milliseconds like the
  timestamp of a post.
\<close>

record cluster =
  posts :: "xpost list"
  location :: string
  topics :: "string list"
  clusterTimestamp :: int

text \<open>\<open>Math.abs(postTime - incidentTime) / (1000 * 60 * 60)\<close>\<close>

definition hoursDiff :: "int \<Rightarrow> int \<Rightarrow> rat" where
  "hoursDiff postTime incidentTime = of_int \<bar>postTime - incidentTime\<bar> / (1000 * 60 * 60)"

text \<open>The union of topics: each topic of the post is pushed unless already there.\<close>

definition unionTopics :: "string list \<Rightarrow> string list \<Rightarrow> string list" where
  "unionTopics existing postTopics =
     foldl (\<lambda>acc topic. if topic \<in> set acc then acc else acc @ [topic]) existing postTopics"

text \<open>\<open>Array.prototype.find\<close> on the clusters, as the index of the first match, so that
  the cluster found can be updated in place.\<close>

fun findIndex :: "('a \<Rightarrow> bool) \<Rightarrow> 'a list \<Rightarrow> nat option" where
  "findIndex P [] = None"
| "findIndex P (x # xs) = (if P x then Some 0 else map_option Suc (findIndex P xs))"

text \<open>The predicate of the search of the first pass.\<close>

definition matchesPass1 :: "locationMatch \<Rightarrow> string list \<Rightarrow> int \<Rightarrow> cluster \<Rightarrow> bool" where
  "matchesPass1 postLocation postTopics postTime incident =
     (let loc1 = toLowerCase (location incident);
          loc2 = toLowerCase (matchLocation postLocation)
      in if loc1 \<noteq> loc2 \<and> \<not> includesStr loc1 loc2 \<and> \<not> includesStr loc2 loc1 then False
         else
           (let topicOverlap = list_ex (\<lambda>topic. topic \<in> set postTopics) (topics incident);
                isShooting = (''shooting'' \<in> set postTopics \<or> ''shooting'' \<in> set (topics incident))
            in if \<not> topicOverlap \<and> topics incident \<noteq> [] \<and> postTopics \<noteq> [] \<and> isShooting
               then False
               else if hoursDiff postTime (clusterTimestamp incident) > 24 then False
               else True))"

text \<open>What the first pass does to the cluster it found.\<close>

definition attachPass1 :: "xpost \<Rightarrow> locationMatch \<Rightarrow> string list \<Rightarrow> int \<Rightarrow> cluster \<Rightarrow> cluster" where
  "attachPass1 post postLocation postTopics postTime incident =
     (let i1 = incident\<lparr>posts := posts incident @ [post],
                         topics := unionTopics (topics incident) postTopics\<rparr>;
          i2 = (if postTime > clusterTimestamp i1 then i1\<lparr>clusterTimestamp := postTime\<rparr> else i1)
      in if matchConfidence postLocation > 8 / 10
            \<and> length (location i2) < length (matchLocation postLocation)
         then i2\<lparr>location := matchLocation postLocation\<rparr>
         else i2)"

text \<open>
  One round of the first \<open>forEach\<close>, on the state made of the clusters and the set
  \<open>processed\<close> of post ids.
\<close>

definition pass1Step :: "xpost \<Rightarrow> cluster list \<times> string set \<Rightarrow> cluster list \<times> string set" where
  "pass1Step post st =
     (case st of (incidents, processed) \<Rightarrow>
      if post_id post \<in> processed then st
      else
        (let postLocation = extractPostLocation post in
         if matchConfidence postLocation < 5 / 10 then st
         else
           (let postTopics = extractTopics post;
                postTime = timestamp post
            in case findIndex (matchesPass1 postLocation postTopics postTime) incidents of
                 Some i \<Rightarrow>
                   (incidents[i := attachPass1 post postLocation postTopics postTime (incidents ! i)],
                    insert (post_id post) processed)
               | None \<Rightarrow>
                   (incidents @ [\<lparr>posts = [post], location = matchLocation postLocation,
                                  topics = postTopics, clusterTimestamp = timestamp post\<rparr>],
                    insert (post_id post) processed))))"

text \<open>The predicate of the search of the second pass.\<close>

definition matchesPass2 :: "string \<Rightarrow> string list \<Rightarrow> int \<Rightarrow> cluster \<Rightarrow> bool" where
  "matchesPass2 postText postTopics postTime incident =
     (if \<not> includesStr postText (toLowerCase (location incident)) then False
      else
        (let topicOverlap = list_ex (\<lambda>topic. topic \<in> set postTopics) (topics incident)
         in if \<not> topicOverlap \<and> topics incident \<noteq> [] \<and> postTopics \<noteq> [] then False
            else if hoursDiff postTime (clusterTimestamp incident) > 24 then False
            else True))"

definition attachPass2 :: "xpost \<Rightarrow> string list \<Rightarrow> cluster \<Rightarrow> cluster" where
  "attachPass2 post postTopics incident =
     incident\<lparr>posts := posts incident @ [post],
               topics := unionTopics (topics incident) postTopics\<rparr>"

definition pass2Step :: "xpost \<Rightarrow> cluster list \<times> string set \<Rightarrow> cluster list \<times> string set" where
  "pass2Step post st =
     (case st of (incidents, processed) \<Rightarrow>
      if post_id post \<in> processed then st
      else
        (let postTopics = extractTopics post;
             postTime = timestamp post;
             postText = toLowerCase (post_text post)
         in case findIndex (matchesPass2 postText postTopics postTime) incidents of
              Some i \<Rightarrow>
                (incidents[i := attachPass2 post postTopics (incidents ! i)],
                 insert (post_id post) processed)
            | None \<Rightarrow> st))"

definition pass1 :: "xpost list \<Rightarrow> cluster list \<times> string set \<Rightarrow> cluster list \<times> string set" where
  "pass1 ps st = foldl (\<lambda>s post. pass1Step post s) st ps"

definition pass2 :: "xpost list \<Rightarrow> cluster list \<times> string set \<Rightarrow> cluster list \<times> string set" where
  "pass2 ps st = foldl (\<lambda>s post. pass2Step post s) st ps"

definition anchorIncidentsToLocations :: "xpost list \<Rightarrow> cluster list" where
  "anchorIncidentsToLocations ps =
     filter (\<lambda>incident. length (posts incident) \<ge> 1) (fst (pass2 ps (pass1 ps ([], {}))))"

definition groupPostsByIncident :: "xpost list \<Rightarrow> (xpost list \<times> string) list" where
  "groupPostsByIncident ps =
     map (\<lambda>incident. (posts incident, location incident)) (anchorIncidentsToLocations ps)"

text \<open>The post ids of all clusters, cluster after cluster.\<close>

definition clusterIds :: "cluster list \<Rightarrow> string list" where
  "clusterIds incidents = concat (map (\<lambda>incident. map post_id (posts incident)) incidents)"

text \<open>Two posts are more than 24 hours apart, as the recency test measures it.\<close>

definition farApart :: "xpost \<Rightarrow> xpost \<Rightarrow> bool" where
  "farApart a b = (hoursDiff (timestamp a) (timestamp b) > 24)"

text \<open>
  The pairs of posts of \<open>S\<close> at most 24 hours apart. Its reflexive transitive closure
  links two posts of \<open>S\<close> by a chain of posts of \<open>S\<close> in which each is at most 24
  hours from the next.
\<close>

definition nearIn :: "xpost set \<Rightarrow> (xpost \<times> xpost) set" where
  "nearIn S = {(a, b). a \<in> S \<and> b \<in> S \<and> \<not> farApart a b}"

text \<open>
  The invariant of both passes on the clusters, for the posts \<open>B\<close> of the batch: the
  members of a cluster are posts of the batch, its timestamp is that of a member, and
  any two members are linked within the cluster.
\<close>

definition linkedClusters :: "xpost list \<Rightarrow> cluster list \<Rightarrow> bool" where
  "linkedClusters B incidents \<longleftrightarrow>
     (\<forall>c \<in> set incidents.
        set (posts c) \<subseteq> set B
        \<and> (\<exists>m \<in> set (posts c). clusterTimestamp c = timestamp m)
        \<and> (\<forall>a \<in> set (posts c). \<forall>b \<in> set (posts c). (a, b) \<in> (nearIn (set (posts c)))\<^sup>*))"

section \<open>Example batches\<close>

text \<open>Two posts about one venue and, between them, a post about another.\<close>

definition mallBatch :: "xpost list" where
  "mallBatch =
     [examplePost ''1'' ''Shooting at Westfield Valley Fair'' 10 0,
      examplePost ''2'' ''Fire at Stanford Mall'' 10 3600000,
      examplePost ''3'' ''Westfield Valley Fair shooting update'' 10 7200000]"

text \<open>
  A cluster seeded by a fire report at a building, and a post that mentions the building
  in none of the forms the Location Extractor knows, so that only the second pass can
  attach it.
\<close>

definition ferryClusters :: "cluster list" where
  "ferryClusters =
     [\<lparr>posts = [examplePost ''1'' ''Fire at Ferry Building'' 10 0],
       location = ''Ferry Building'', topics = [], clusterTimestamp = 0\<rparr>]"

definition fallbackPost :: xpost where
  "fallbackPost = examplePost ''2'' ''ferry building on fire, suspect seen'' 10 3600000"

text \<open>Three posts at the same venue, 20 hours apart from one to the next.\<close>

definition chainPost1 :: xpost where
  "chainPost1 = examplePost ''1'' ''Shooting at Westfield Valley Fair'' 10 0"

definition chainPost2 :: xpost where
  "chainPost2 =
     examplePost ''2'' ''Westfield Valley Fair shooting: suspect at large'' 10 (20 * 3600000)"

definition chainPost3 :: xpost where
  "chainPost3 = examplePost ''3'' ''Westfield Valley Fair shooting update'' 10 (40 * 3600000)"

definition chainBatch :: "xpost list" where
  "chainBatch = [chainPost1, chainPost2, chainPost3]"

text \<open>The first and the last of them only.\<close>

definition farBatch :: "xpost list" where
  "farBatch = [chainPost1, chainPost3]"

text \<open>The cluster that the first of them seeds.\<close>

definition valleyFairClusters :: "cluster list" where
  "valleyFairClusters =
     [\<lparr>posts = [chainPost1], location = ''Westfield Valley Fair'', topics = [''shooting''],
       clusterTimestamp = 0\<rparr>]"

text \<open>A shooting report and a later post on the suspect, both about one venue.\<close>

definition sapPosts :: "xpost list" where
  "sapPosts =
     [examplePost ''1'' ''Shooting at SAP Center'' 10 0,
      examplePost ''2'' ''suspect in custody, scene cleared at sap center'' 20 0]"

section \<open>Narrative Synthesizer\<close>

record citation =
  cit_id :: nat
  cit_url :: string
  cit_username :: string

record tldr =
  summary :: string
  citations :: "citation list"

text \<open>A literal string without the \<open>i\<close> flag.\<close>

definition litx :: "string \<Rightarrow> regex" where
  "litx k = seqs (map ch k)"

text \<open>\<open>/https?:\/\/[^\s]+/g\<close>\<close>

definition urlPattern :: regex where
  "urlPattern = seqs [litx ''http'', opt (ch CHR ''s''), litx ''://'', plus (Chr (\<lambda>x. \<not> isSpace x))]"

text \<open>
  \<open>s.replace(pattern, '')\<close> with a global pattern: the matches are cut out from left to
  right, the search going on after each match (or one character further where nothing
  matches).
\<close>

function removeAll :: "regex \<Rightarrow> string \<Rightarrow> string" where
  "removeAll r [] = []"
| "removeAll r (x # xs) =
     (case runRegex r (x # xs, []) of
        [] \<Rightarrow> x # removeAll r xs
      | (rest, c) # _ \<Rightarrow>
          if length rest < length (x # xs) then removeAll r rest else x # removeAll r xs)"
  by pat_completeness auto
termination
  by (relation "measure (\<lambda>(r, s). length s)") auto

definition cleanText :: "xpost \<Rightarrow> string" where
  "cleanText post = trim (removeAll urlPattern (post_text post))"

text \<open>\<open>match[0]\<close> of \<open>s.match(r)\<close>: the text of the first match.\<close>

definition wholeMatch :: "regex \<Rightarrow> string \<Rightarrow> string option" where
  "wholeMatch r s = (case regexMatch (Grp 0 r) s of None \<Rightarrow> None | Some c \<Rightarrow> map_of c 0)"

text \<open>
  The four extractions of the \<open>forEach\<close> over \<open>topPosts\<close> have one shape: if the
  lower-cased text matches \<open>/(?:k1|k2|...)/i\<close>, the clause
  \<open>/(.{0,200}(?:k1|k2|...).{0,200})/i\<close> of the clean text is pushed unless already there.
  (The time references the loop also collects are never read and are left out.)
\<close>

definition clausePattern :: "string list \<Rightarrow> regex" where
  "clausePattern ks = seqs [Upto 200 (Chr isDot), lits ks, Upto 200 (Chr isDot)]"

definition clauseOf :: "string list \<Rightarrow> xpost \<Rightarrow> string option" where
  "clauseOf ks post =
     (if regexTest (lits ks) (toLowerCase (post_text post))
      then wholeMatch (clausePattern ks) (cleanText post)
      else None)"

definition collectClauses :: "string list \<Rightarrow> xpost list \<Rightarrow> string list" where
  "collectClauses ks ps =
     foldl (\<lambda>acc post. case clauseOf ks post of
                          None \<Rightarrow> acc
                        | Some m \<Rightarrow> if m \<in> set acc then acc else acc @ [m]) [] ps"

definition whatHappenedWords :: "string list" where
  "whatHappenedWords = [''shooting'', ''shots fired'', ''gunfire'', ''active shooter'']"

definition suspectWords :: "string list" where
  "suspectWords = [''suspect'', ''arrested'', ''in custody'', ''perpetrator'', ''shooter'']"

definition resolutionWords :: "string list" where
  "resolutionWords =
     [''resolved'', ''cleared'', ''evacuated'', ''contained'', ''under control'', ''arrested'',
      ''in custody'']"

definition casualtyWords :: "string list" where
  "casualtyWords = [''injured'', ''killed'', ''wounded'', ''victim'', ''casualty'', ''hospitalized'']"

text \<open>The comparator of the sort: shooting posts first, then likes plus retweets, descending.\<close>

definition isShootingText :: "string \<Rightarrow> bool" where
  "isShootingText t = (includesStr t ''shooting'' \<or> includesStr t ''shots fired'')"

definition reactions :: "xpost \<Rightarrow> int" where
  "reactions p = likes (engagement p) + retweets (engagement p)"

definition compareRelevance :: "xpost \<Rightarrow> xpost \<Rightarrow> int" where
  "compareRelevance a b =
     (let aIsShooting = isShootingText (toLowerCase (post_text a));
          bIsShooting = isShootingText (toLowerCase (post_text b))
      in if aIsShooting \<and> \<not> bIsShooting then - 1
         else if \<not> aIsShooting \<and> bIsShooting then 1
         else reactions b - reactions a)"

definition topPosts :: "xpost list \<Rightarrow> xpost list" where
  "topPosts ps = take 7 (sortBy compareRelevance ps)"

text \<open>The filter for \<open>locationPosts\<close>, on the lower-cased location and text.\<close>

definition mentionsLocation :: "string \<Rightarrow> string \<Rightarrow> bool" where
  "mentionsLocation locLower t =
     (includesStr t locLower
      \<or> (includesStr locLower ''stanford'' \<and> includesStr t ''stanford'')
      \<or> (includesStr locLower ''westfield''
          \<and> (includesStr t ''westfield'' \<or> includesStr t ''valley fair''))
      \<or> (includesStr locLower ''palo alto'' \<and> includesStr t ''palo alto'')
      \<or> (includesStr locLower ''san jose'' \<and> includesStr t ''san jose''))"

definition relevantPosts :: "xpost list \<Rightarrow> string \<Rightarrow> xpost list" where
  "relevantPosts ps incidentLocation =
     (let locationPosts =
            filter (\<lambda>p. mentionsLocation (toLowerCase incidentLocation)
                          (toLowerCase (post_text p))) (topPosts ps)
      in if locationPosts \<noteq> [] then locationPosts else topPosts ps)"

text \<open>The predicate of the search for \<open>primaryPost\<close>; \<open>&&\<close> binds tighter than \<open>||\<close>.\<close>

definition isPrimary :: "string \<Rightarrow> xpost \<Rightarrow> bool" where
  "isPrimary incidentLocation p =
     (let t = toLowerCase (post_text p); locLower = toLowerCase incidentLocation
      in (includesStr t ''shooting'' \<or> includesStr t ''shots fired'')
         \<and> (includesStr t locLower
            \<or> (includesStr locLower ''stanford'' \<and> includesStr t ''stanford'')
            \<or> (includesStr locLower ''westfield''
                \<and> (includesStr t ''westfield'' \<or> includesStr t ''valley fair''))))"

definition isSuspectPost :: "xpost \<Rightarrow> bool" where
  "isSuspectPost p =
     regexTest (lits [''suspect'', ''arrested'', ''in custody'']) (toLowerCase (post_text p))"

text \<open>
  The state of the summary under construction: the text so far, the citations and the
  set \<open>usedUrls\<close>.
\<close>

type_synonym tldrState = "string \<times> citation list \<times> string set"

text \<open>Push a citation for the post unless its URL is in \<open>usedUrls\<close>.\<close>

definition cite :: "nat \<Rightarrow> xpost \<Rightarrow> citation list \<times> string set \<Rightarrow> citation list \<times> string set" where
  "cite n p st =
     (case st of (cits, usedUrls) \<Rightarrow>
      if url p \<notin> usedUrls
      then (cits @ [\<lparr>cit_id = n, cit_url = url p, cit_username = username (author p)\<rparr>],
            insert (url p) usedUrls)
      else st)"

text \<open>
  The block ``what happened''. \<open>relevantPosts[0]\<close> of an empty list is \<open>undefined\<close>, and
  reading its \<open>url\<close> throws: the result is \<open>None\<close> then.
\<close>

definition whatHappenedBlock ::
  "string \<Rightarrow> xpost list \<Rightarrow> string list \<Rightarrow> tldrState \<Rightarrow> tldrState option" where
  "whatHappenedBlock incidentLocation relevant casualties st =
     (case st of (text, cits, usedUrls) \<Rightarrow>
      (case (case List.find (isPrimary incidentLocation) relevant of
               Some p \<Rightarrow> Some p
             | None \<Rightarrow> (case relevant of [] \<Rightarrow> None | p # _ \<Rightarrow> Some p)) of
         None \<Rightarrow> None
       | Some primaryPost \<Rightarrow>
           (let (cits', usedUrls') = cite 1 primaryPost (cits, usedUrls);
                t1 = text @ ''Shooting reported at '' @ incidentLocation @ ''. [@''
                     @ username (author primaryPost) @ ''](''  @ url primaryPost @ '') '';
                t2 = (case casualties of
                        [] \<Rightarrow> t1 @ ''reported the incident''
                      | c # _ \<Rightarrow>
                          (let casualtyText = toLowerCase c
                           in if includesStr casualtyText ''killed'' \<or> includesStr casualtyText ''dead''
                              then t1 @ ''reported fatalities''
                              else if includesStr casualtyText ''injured''
                              then t1 @ ''reported injuries''
                              else t1))
            in Some (t2 @ ''. '', cits', usedUrls'))))"

text \<open>The block on the suspect; \<open>relevantPosts[1]\<close> may be \<open>undefined\<close>, which is allowed.\<close>

definition suspectBlock :: "xpost list \<Rightarrow> string \<Rightarrow> tldrState \<Rightarrow> tldrState" where
  "suspectBlock relevant firstSuspectInfo st =
     (case st of (text, cits, usedUrls) \<Rightarrow>
      (let suspectPost =
             (case List.find isSuspectPost relevant of
                Some p \<Rightarrow> Some p
              | None \<Rightarrow> (if length relevant > 1 then Some (relevant ! 1) else None));
           (cits', usedUrls') =
             (case suspectPost of
                None \<Rightarrow> (cits, usedUrls)
              | Some p \<Rightarrow> cite (length cits + 1) p (cits, usedUrls));
           handle = (case suspectPost of
                       None \<Rightarrow> ''source''
                     | Some p \<Rightarrow> if username (author p) = [] then ''source''
                                 else username (author p));
           link = (case suspectPost of
                     None \<Rightarrow> ''#''
                   | Some p \<Rightarrow> if url p = [] then ''#'' else url p)
       in if includesStr (toLowerCase firstSuspectInfo) ''arrested''
             \<or> includesStr (toLowerCase firstSuspectInfo) ''in custody''
          then (text @ ''[@'' @ handle @ '']('' @ link @ '') confirmed suspect in custody. '',
                cits', usedUrls')
          else (text, cits', usedUrls')))"

definition generateTLDR :: "xpost list \<Rightarrow> string \<Rightarrow> tldr option" where
  "generateTLDR ps incidentLocation =
     (if ps = [] then Some \<lparr>summary = ''No information available.'', citations = []\<rparr>
      else
        (let top = topPosts ps;
             isShooting = list_ex (\<lambda>p. includesStr (toLowerCase (post_text p)) ''shooting'') top;
             whatHappened = collectClauses whatHappenedWords top;
             suspectInfo = collectClauses suspectWords top;
             resolution = collectClauses resolutionWords top;
             casualties = collectClauses casualtyWords top;
             relevant = relevantPosts ps incidentLocation;
             s1 = (if whatHappened \<noteq> [] \<and> isShooting
                   then whatHappenedBlock incidentLocation relevant casualties ([], [], {})
                   else Some ([], [], {}))
         in case s1 of
              None \<Rightarrow> None
            | Some st1 \<Rightarrow>
                (let st2 = (case suspectInfo of
                              [] \<Rightarrow> st1
                            | info # _ \<Rightarrow> suspectBlock relevant info st1);
                     text3 = (case resolution of
                                [] \<Rightarrow> fst st2
                              | res # _ \<Rightarrow>
                                  if includesStr (toLowerCase res) ''cleared''
                                  then fst st2 @ ''Scene cleared.'' else fst st2)
                 in Some \<lparr>summary = trim text3, citations = fst (snd st2)\<rparr>)))"

text \<open>
  What holds of the citations and of \<open>usedUrls\<close> while a summary is built from the posts
  \<open>R\<close>: the URLs cited are those in \<open>usedUrls\<close>, no URL is cited twice, the sequence
  numbers count up from 1, and every URL cited is the URL of a post of \<open>R\<close>.
\<close>

definition citationsOk :: "xpost list \<Rightarrow> citation list \<times> string set \<Rightarrow> bool" where
  "citationsOk R st =
     (set (map cit_url (fst st)) = snd st
      \<and> distinct (map cit_url (fst st))
      \<and> map cit_id (fst st) = [1..<Suc (length (fst st))]
      \<and> set (map cit_url (fst st)) \<subseteq> url ` set R)"

section \<open>Incident Assembler\<close>

text \<open>
  The fields of \<open>Incident\<close> and of its \<open>discussion\<close> that the pipeline computes from the
  posts. The fields \<open>id\<close> (a fresh UUID), \<open>title\<close>, \<open>description\<close> and \<open>coordinates\<close>
  depend on the posts and the location alone and are read neither by the merge nor by
  the sort; they are left out.
\<close>

record incident =
  severity :: Severity
  incidentLocation :: string
  incidentTimestamp :: int
  shooterStatus :: string
  userSummary :: string
  tldrCitations :: "citation list"
  sources :: "xpost list"
  incidentEngagement :: totalEngagement

text \<open>What can make \<open>fetchRealTimeIncidents\<close> throw.\<close>

datatype failure = SearchFailed | NoPrimaryPost | InvalidDate

subsection \<open>One incident per group\<close>

text \<open>\<open>Math.max(...timestamps)\<close>; for no timestamp at all the date is invalid and
  \<open>toISOString\<close> throws.\<close>

definition mostRecent :: "xpost list \<Rightarrow> int option" where
  "mostRecent ps = (case ps of [] \<Rightarrow> None | p # rest \<Rightarrow> Some (foldl max (timestamp p) (map timestamp rest)))"

text \<open>
  The body of \<open>incidentGroups.forEach\<close>, the same on both paths: \<open>Inr None\<close> when the
  reliability gate skips the group, \<open>Inr (Some incident)\<close> when it builds an incident.
  \<open>extractLocation\<close>, the fallback the source calls when the anchored location is the
  empty string, adds up confidences in floating point; it is a parameter here, so that
  what is proved holds whatever it returns.
\<close>

definition groupIncident ::
  "(xpost list \<Rightarrow> string) \<Rightarrow> xpost list \<times> string \<Rightarrow> failure + incident option" where
  "groupIncident extractLocation g =
     (case g of (ps, anchoredLocation) \<Rightarrow>
      if groupSkipped ps then Inr None
      else
        (let totalEngagement = calculateTotalEngagement ps;
             sev = determineSeverity ps;
             loc = (if anchoredLocation \<noteq> [] then anchoredLocation else extractLocation ps)
         in case generateTLDR ps loc of
              None \<Rightarrow> Inl NoPrimaryPost
            | Some tldrResult \<Rightarrow>
                (case mostRecent ps of
                   None \<Rightarrow> Inl InvalidDate
                 | Some t \<Rightarrow>
                     Inr (Some \<lparr>severity = sev, incidentLocation = loc, incidentTimestamp = t,
                                shooterStatus = (if sev = critical then ''Active Investigation''
                                                 else if sev = high then ''Monitoring''
                                                 else ''Verified''),
                                userSummary = summary tldrResult,
                                tldrCitations = citations tldrResult,
                                sources = ps,
                                incidentEngagement = totalEngagement\<rparr>))))"

text \<open>The loop over the groups: the incidents pushed, in order, unless a round throws.\<close>

fun collectIncidents ::
  "(xpost list \<Rightarrow> string) \<Rightarrow> (xpost list \<times> string) list \<Rightarrow> failure + incident list" where
  "collectIncidents extractLocation [] = Inr []"
| "collectIncidents extractLocation (g # gs) =
     (case groupIncident extractLocation g of
        Inl e \<Rightarrow> Inl e
      | Inr r \<Rightarrow>
          (case collectIncidents extractLocation gs of
             Inl e \<Rightarrow> Inl e
           | Inr rest \<Rightarrow> Inr ((case r of None \<Rightarrow> [] | Some i \<Rightarrow> [i]) @ rest)))"

definition liveIncidents ::
  "(xpost list \<Rightarrow> string) \<Rightarrow> xpost list \<Rightarrow> failure + incident list" where
  "liveIncidents extractLocation ps =
     collectIncidents extractLocation (groupPostsByIncident ps)"

subsection \<open>The final merge\<close>

definition incidentReactions :: "incident \<Rightarrow> int" where
  "incidentReactions a = totalLikes (incidentEngagement a) + totalRetweets (incidentEngagement a)"

text \<open>The comparator of the final sort.\<close>

definition compareIncidents :: "incident \<Rightarrow> incident \<Rightarrow> int" where
  "compareIncidents a b =
     (let severityDiff = severityOrder (severity b) - severityOrder (severity a)
      in if severityDiff \<noteq> 0 then severityDiff
         else incidentReactions b - incidentReactions a)"

definition mergeIncidents :: "incident list \<Rightarrow> incident list \<Rightarrow> incident list" where
  "mergeIncidents hardcodedIncidents incidents =
     sortBy compareIncidents (hardcodedIncidents @ incidents)"

text \<open>The path of a custom query, given the tweets the search returned.\<close>

definition customQueryPath ::
  "(xpost list \<Rightarrow> string) \<Rightarrow> incident list \<Rightarrow> xpost list \<Rightarrow> failure + incident list" where
  "customQueryPath extractLocation hardcodedIncidents tweets =
     (if tweets = [] then Inr []
      else
        (case liveIncidents extractLocation (filterLowEngagementPosts tweets) of
           Inl e \<Rightarrow> Inl e
         | Inr incidents \<Rightarrow> Inr (mergeIncidents hardcodedIncidents incidents)))"

text \<open>
  The default path. \<open>allPostsMap\<close> keeps the first post of each id, in insertion order:
  the city searches, then the police reports (marked verified), then the general searches.
\<close>

definition addPosts :: "(xpost \<Rightarrow> xpost) \<Rightarrow> xpost list \<Rightarrow> xpost list \<Rightarrow> xpost list" where
  "addPosts f m ps =
     foldl (\<lambda>acc post. if post_id post \<in> set (map post_id acc) then acc else acc @ [f post]) m ps"

definition markVerified :: "xpost \<Rightarrow> xpost" where
  "markVerified post = post\<lparr>author := (author post)\<lparr>verified := True\<rparr>\<rparr>"

definition defaultPosts :: "xpost list \<Rightarrow> xpost list \<Rightarrow> xpost list \<Rightarrow> xpost list" where
  "defaultPosts citySearches policeReports allGeneralPosts =
     filterLowEngagementPosts
       (addPosts id (addPosts markVerified (addPosts id [] citySearches) policeReports)
          allGeneralPosts)"

definition defaultPath ::
  "(xpost list \<Rightarrow> string) \<Rightarrow> incident list \<Rightarrow> xpost list \<Rightarrow> xpost list \<Rightarrow> xpost list
   \<Rightarrow> failure + incident list" where
  "defaultPath extractLocation hardcodedIncidents citySearches policeReports allGeneralPosts =
     (let allPosts = defaultPosts citySearches policeReports allGeneralPosts
      in if allPosts = [] then Inr hardcodedIncidents
         else
           (case liveIncidents extractLocation allPosts of
              Inl e \<Rightarrow> Inl e
            | Inr incidents \<Rightarrow> Inr (mergeIncidents hardcodedIncidents incidents)))"

text \<open>
  \<open>fetchRealTimeIncidents\<close>, as a function of \<open>extractLocation\<close> and of what its
  awaited calls return:
  \<open>hardcodedIncidents\<close> from \<open>fetchHardcodedIncidents\<close>; for a custom query the result of
  \<open>searchTweets(query, 100)\<close>, \<open>None\<close> if it throws; for the default path the flattened
  city searches, the police reports and the general searches, none of which throws.
\<close>

definition fetchRealTimeIncidents ::
  "(xpost list \<Rightarrow> string) \<Rightarrow> incident list \<Rightarrow> string \<Rightarrow> xpost list option \<Rightarrow> xpost list
   \<Rightarrow> xpost list \<Rightarrow> xpost list \<Rightarrow> failure + incident list" where
  "fetchRealTimeIncidents extractLocation hardcodedIncidents query searchResult citySearches
     policeReports allGeneralPosts =
     (if query \<noteq> [] \<and> trim query \<noteq> []
      then (case searchResult of
              None \<Rightarrow> Inl SearchFailed
            | Some tweets \<Rightarrow> customQueryPath extractLocation hardcodedIncidents tweets)
      else defaultPath extractLocation hardcodedIncidents citySearches policeReports
             allGeneralPosts)"

text \<open>
  The order of the final sort: \<open>a\<close> may stand before \<open>b\<close> when its severity rank is
  higher, or equal with at least as many likes plus retweets.
\<close>

definition ranksBefore :: "incident \<Rightarrow> incident \<Rightarrow> bool" where
  "ranksBefore a b =
     (severityOrder (severity a) > severityOrder (severity b)
      \<or> (severityOrder (severity a) = severityOrder (severity b)
          \<and> incidentReactions a \<ge> incidentReactions b))"

text \<open>Catalogue incidents for concrete inputs: a severity and a number of likes.\<close>

definition exampleIncident :: "Severity \<Rightarrow> int \<Rightarrow> incident" where
  "exampleIncident sev l =
     \<lparr>severity = sev, incidentLocation = ''Laney College, Oakland'', incidentTimestamp = 0,
      shooterStatus = ''Under Investigation'', userSummary = ''Summary'', tldrCitations = [],
      sources = [],
      incidentEngagement = \<lparr>totalLikes = l, totalRetweets = 0, totalReplies = 0,
                              totalQuotes = 0, totalViews = 0\<rparr>\<rparr>"

section \<open>Evaluating the string functions\<close>

lemmas string_eval =
  toLowerCase_def toLowerChar_def upperChars_def lowerChars_def includesAny_def

section \<open>Properties of the engagement filter\<close>

text \<open>
  C3, evaluated on the code: a post whose only non-zero metric is its quote count is
  dropped by \<open>filterLowEngagementPosts\<close>, because the filter never reads \<open>quotes\<close>.
\<close>

theorem filterLowEngagementPosts_drops_quoted_post:
  "quotes (engagement quotedOnlyPost) = 5 \<and> filterLowEngagementPosts [quotedOnlyPost] = []"
  by (simp add: filterLowEngagementPosts_def hasEngagement_def quotedOnlyPost_def)

section \<open>Properties of the severity cascade\<close>

lemma severityOrder_ge_1: "1 \<le> severityOrder s"
  by (cases s) simp_all

lemma empty_findings:
  "\<not> hasShooting []" "\<not> hasCriticalKeyword []" "totalReactions [] = 0"
  by (simp_all add: hasShooting_def hasCriticalKeyword_def totalReactions_def
      calculateTotalEngagement_def zeroEngagement_def)

text \<open>
  C7: severity is monotonic in total engagement within a fixed keyword category. For two
  post lists with the same shooting-keyword finding and the same critical-keyword finding,
  a greater or equal total of likes plus retweets gives a greater or equal severity, in
  the order critical > high > medium > low (compared through the ranks 4, 3, 2, 1).
\<close>

theorem determineSeverity_monotone:
  assumes "hasShooting ps = hasShooting qs"
    and "hasCriticalKeyword ps = hasCriticalKeyword qs"
    and "totalReactions ps \<le> totalReactions qs"
  shows "severityOrder (determineSeverity ps) \<le> severityOrder (determineSeverity qs)"
proof (cases "ps = [] \<or> qs = []")
  case False
  with assms show ?thesis by (simp add: determineSeverity_def)
next
  case True
  then show ?thesis
  proof
    assume "ps = []"
    then have "determineSeverity ps = low" by (simp add: determineSeverity_def)
    then show ?thesis using severityOrder_ge_1 [of "determineSeverity qs"] by simp
  next
    assume q: "qs = []"
    with assms empty_findings
    have "\<not> hasShooting ps" "\<not> hasCriticalKeyword ps" "totalReactions ps \<le> 0"
      by simp_all
    then have "determineSeverity ps = low" by (simp add: determineSeverity_def)
    then show ?thesis using severityOrder_ge_1 [of "determineSeverity qs"] by simp
  qed
qed

lemma example_severity_inputs:
  "hasShooting [examplePost ''1'' ''Shooting at the mall'' 100 0]"
  "hasShooting [examplePost ''2'' ''Shooting at the mall'' 600 0]"
  "\<not> hasCriticalKeyword [examplePost ''1'' ''Shooting at the mall'' 100 0]"
  "\<not> hasCriticalKeyword [examplePost ''2'' ''Shooting at the mall'' 600 0]"
  "totalReactions [examplePost ''1'' ''Shooting at the mall'' 100 0] = 100"
  "totalReactions [examplePost ''2'' ''Shooting at the mall'' 600 0] = 600"
  by code_simp+

theorem determineSeverity_monotone_witness:
  "hasShooting [examplePost ''1'' ''Shooting at the mall'' 100 0]
     = hasShooting [examplePost ''2'' ''Shooting at the mall'' 600 0]
   \<and> hasCriticalKeyword [examplePost ''1'' ''Shooting at the mall'' 100 0]
     = hasCriticalKeyword [examplePost ''2'' ''Shooting at the mall'' 600 0]
   \<and> totalReactions [examplePost ''1'' ''Shooting at the mall'' 100 0]
     \<le> totalReactions [examplePost ''2'' ''Shooting at the mall'' 600 0]
   \<and> severityOrder (determineSeverity [examplePost ''1'' ''Shooting at the mall'' 100 0])
     \<le> severityOrder (determineSeverity [examplePost ''2'' ''Shooting at the mall'' 600 0])"
  using determineSeverity_monotone
    [of "[examplePost ''1'' ''Shooting at the mall'' 100 0]"
        "[examplePost ''2'' ''Shooting at the mall'' 600 0]"]
  by (simp add: example_severity_inputs)

section \<open>Properties of the reliability gate\<close>

text \<open>
  For a non-empty group the clause \<open>posts.length >= 1\<close> makes the inner disjunction of
  \<open>isReliable\<close> true, so \<open>isReliable\<close> says that the sentiment is not negative.
\<close>

lemma isReliable_nonempty: "n \<ge> 1 \<Longrightarrow> isReliable s n \<longleftrightarrow> sentiment s \<noteq> negative"
  by (simp add: isReliable_def)

text \<open>
  The confidence of a group of one post is \<open>1 / 1\<close>, whatever the post says: no group of
  one post has a confidence of 0.6 or less.
\<close>

lemma single_post_confidence: "confidence (analyzeSentiment [p]) = 1"
  by (simp add: analyzeSentiment_def positiveCount_def negativeCount_def neutralCount_def Let_def)

lemma single_post_confidence_not_low:
  "length ps = 1 \<Longrightarrow> \<not> confidence (analyzeSentiment ps) \<le> 6 / 10"
proof -
  assume "length ps = 1"
  then obtain p where "ps = [p]" by (cases ps) auto
  then show ?thesis by (simp add: single_post_confidence)
qed

text \<open>
  A non-empty group is skipped by the gate exactly when it has one post and negative
  sentiment.
\<close>

lemma groupSkipped_iff:
  "ps \<noteq> [] \<Longrightarrow>
   groupSkipped ps \<longleftrightarrow> length ps = 1 \<and> sentiment (analyzeSentiment ps) = negative"
proof -
  assume "ps \<noteq> []"
  then have "length ps \<ge> 1" by (cases ps) simp_all
  then show ?thesis by (auto simp add: groupSkipped_def gateSkips_def isReliable_nonempty)
qed

text \<open>A group of one post that calls the report a hoax: negative, and skipped.\<close>

lemma hoax_post_sentiment:
  "sentiment (analyzeSentiment [examplePost ''1'' ''This shooting report is a hoax'' 3 0]) = negative"
  "verifiedCount (analyzeSentiment [examplePost ''1'' ''This shooting report is a hoax'' 3 0]) = 0"
  by code_simp+

lemma hoax_post_skipped:
  "groupSkipped [examplePost ''1'' ''This shooting report is a hoax'' 3 0]"
  using groupSkipped_iff [of "[examplePost ''1'' ''This shooting report is a hoax'' 3 0]"]
  by (simp add: hoax_post_sentiment)

section \<open>Properties of the string functions\<close>

lemma startsWith_iff: "startsWith s k \<longleftrightarrow> (\<exists>b. s = k @ b)"
  by (induction k arbitrary: s) (auto split: list.splits)

lemma includesStr_iff: "includesStr s k \<longleftrightarrow> (\<exists>a b. s = a @ k @ b)"
proof (induction s)
  case Nil
  then show ?case by auto
next
  case (Cons c s)
  show ?case
  proof
    assume "includesStr (c # s) k"
    then consider "startsWith (c # s) k" | "includesStr s k" by auto
    then show "\<exists>a b. c # s = a @ k @ b"
    proof cases
      case 1
      then obtain b where "c # s = k @ b" using startsWith_iff by blast
      then have "c # s = [] @ k @ b" by simp
      then show ?thesis by blast
    next
      case 2
      then obtain a b where "s = a @ k @ b" using Cons.IH by blast
      then have "c # s = (c # a) @ k @ b" by simp
      then show ?thesis by blast
    qed
  next
    assume "\<exists>a b. c # s = a @ k @ b"
    then obtain a b where ab: "c # s = a @ k @ b" by blast
    show "includesStr (c # s) k"
    proof (cases a)
      case Nil
      with ab have "startsWith (c # s) k" using startsWith_iff by auto
      then show ?thesis by simp
    next
      case (Cons x a')
      with ab have "s = a' @ k @ b" by simp
      then have "includesStr s k" using Cons.IH by blast
      then show ?thesis by simp
    qed
  qed
qed

lemma includesStr_append: "includesStr s k \<Longrightarrow> includesStr (a @ s @ b) k"
proof -
  assume "includesStr s k"
  then obtain u v where "s = u @ k @ v" using includesStr_iff by blast
  then have "a @ s @ b = (a @ u) @ k @ (v @ b)" by simp
  then show ?thesis using includesStr_iff by blast
qed

lemma includesStr_trans: "includesStr s k \<Longrightarrow> includesStr k j \<Longrightarrow> includesStr s j"
proof -
  assume sk: "includesStr s k" and kj: "includesStr k j"
  from sk obtain a b where "s = a @ k @ b" unfolding includesStr_iff by blast
  moreover from kj obtain u v where "k = u @ j @ v" unfolding includesStr_iff by blast
  ultimately have "s = (a @ u) @ j @ (v @ b)" by simp
  then show ?thesis using includesStr_iff by blast
qed

lemma toLowerCase_append: "toLowerCase (a @ b) = toLowerCase a @ toLowerCase b"
  by (simp add: toLowerCase_def)

section \<open>Properties of the regular-expression matcher\<close>

text \<open>The end states of one round of a greedy quantifier.\<close>

lemma in_star_cases:
  assumes "x \<in> set (concat (map (\<lambda>(s', c'). if length s' < length s then f (s', c') else []) xs)
             @ [st])"
  shows "x = st \<or> (\<exists>mid \<in> set xs. length (fst mid) < length s \<and> x \<in> set (f mid))"
proof -
  from assms have "x = st \<or> (\<exists>mid \<in> set xs.
      x \<in> set (case mid of (s', c') \<Rightarrow> if length s' < length s then f (s', c') else []))"
    by auto
  then show ?thesis
  proof
    assume "x = st"
    then show ?thesis by simp
  next
    assume "\<exists>mid \<in> set xs.
      x \<in> set (case mid of (s', c') \<Rightarrow> if length s' < length s then f (s', c') else [])"
    then obtain mid where m: "mid \<in> set xs"
      "x \<in> set (case mid of (s', c') \<Rightarrow> if length s' < length s then f (s', c') else [])"
      by blast
    obtain s' c' where sc: "mid = (s', c')" by (cases mid)
    with m(2) have "length s' < length s \<and> x \<in> set (f mid)" by (simp split: if_splits)
    with m(1) sc show ?thesis by auto
  qed
qed

text \<open>Every end state of a match is a suffix of the input.\<close>

lemma runRegex_suffix: "x \<in> set (runRegex r st) \<Longrightarrow> \<exists>w. fst st = w @ fst x"
proof (induction r st arbitrary: x rule: runRegex.induct)
  case (1 p s c)
  then show ?case by (auto split: list.splits if_splits)
next
  case (2 s c)
  then show ?case by simp
next
  case (3 a b s c)
  from "3.prems" obtain mid where mid: "mid \<in> set (runRegex a (s, c))"
    and x: "x \<in> set (runRegex b mid)" by auto
  from "3.IH"(1) [OF mid] obtain w1 where w1: "s = w1 @ fst mid" by auto
  from "3.IH"(2) [OF mid x] obtain w2 where "fst mid = w2 @ fst x" by auto
  with w1 have "s = (w1 @ w2) @ fst x" by simp
  then show ?case by auto
next
  case (4 a b s c)
  from "4.prems" have "x \<in> set (runRegex a (s, c)) \<or> x \<in> set (runRegex b (s, c))" by simp
  then show ?case using "4.IH" by blast
next
  case (5 r s c)
  from "5.prems" have "x \<in> set (concat (map (\<lambda>(s', c'). if length s' < length s
      then runRegex (Star r) (s', c') else []) (runRegex r (s, c))) @ [(s, c)])"
    by (subst (asm) runRegex.simps(5))
  from in_star_cases [where f = "runRegex (Star r)", OF this]
  consider "x = (s, c)"
    | mid where "mid \<in> set (runRegex r (s, c))" "length (fst mid) < length s"
        "x \<in> set (runRegex (Star r) mid)"
    by blast
  then show ?case
  proof cases
    case 1
    then show ?thesis by simp
  next
    case 2
    from "5.IH"(1) [OF 2(1)] obtain w1 where w1: "s = w1 @ fst mid" by auto
    obtain s' c' where m: "mid = (s', c')" by (cases mid)
    from 2 have a: "(s', c') \<in> set (runRegex r (s, c))" "length s' < length s"
      "x \<in> set (runRegex (Star r) (s', c'))" unfolding m by simp_all
    from "5.IH"(2) [OF a(1) refl a(2) a(3)] obtain w2 where "fst mid = w2 @ fst x"
      unfolding m by auto
    with w1 have "s = (w1 @ w2) @ fst x" by simp
    then show ?thesis by auto
  qed
next
  case (6 r s c)
  then show ?case by simp
next
  case (7 k r s c)
  from "7.prems" have "x \<in> set (concat (map (\<lambda>(s', c'). if length s' < length s
      then runRegex (Upto k r) (s', c') else []) (runRegex r (s, c))) @ [(s, c)])"
    by (simp only: runRegex.simps(7))
  from in_star_cases [where f = "runRegex (Upto k r)", OF this]
  consider "x = (s, c)"
    | mid where "mid \<in> set (runRegex r (s, c))" "length (fst mid) < length s"
        "x \<in> set (runRegex (Upto k r) mid)"
    by blast
  then show ?case
  proof cases
    case 1
    then show ?thesis by simp
  next
    case 2
    from "7.IH"(1) [OF 2(1)] obtain w1 where w1: "s = w1 @ fst mid" by auto
    obtain s' c' where m: "mid = (s', c')" by (cases mid)
    from 2 have a: "(s', c') \<in> set (runRegex r (s, c))" "length s' < length s"
      "x \<in> set (runRegex (Upto k r) (s', c'))" unfolding m by simp_all
    from "7.IH"(2) [OF a(1) refl a(2) a(3)] obtain w2 where "fst mid = w2 @ fst x"
      unfolding m by auto
    with w1 have "s = (w1 @ w2) @ fst x" by simp
    then show ?thesis by auto
  qed
next
  case (8 i r s c)
  from "8.prems" obtain y where y: "y \<in> set (runRegex r (s, c))"
    "x = (case y of (s', c') \<Rightarrow> (s', (i, take (length s - length s') s) # c'))"
    by auto
  obtain s' c' where "y = (s', c')" by (cases y)
  with y have "fst x = fst y" by simp
  with "8.IH" [OF y(1)] show ?case by simp
qed

lemma runRegex_seqs_Cons:
  "x \<in> set (runRegex (seqs (r # rs)) st) \<Longrightarrow>
   \<exists>mid \<in> set (runRegex r st). x \<in> set (runRegex (seqs rs) mid)"
proof (cases rs)
  case Nil
  assume "x \<in> set (runRegex (seqs (r # rs)) st)"
  with Nil have "x \<in> set (runRegex r st)" by simp
  moreover have "x \<in> set (runRegex (seqs rs) x)" using Nil by (cases x) simp
  ultimately show ?thesis by blast
next
  case (Cons a as)
  assume "x \<in> set (runRegex (seqs (r # rs)) st)"
  with Cons show ?thesis by (cases st) auto
qed

lemma runRegex_ci:
  "x \<in> set (runRegex (ci k) st) \<Longrightarrow> \<exists>y. fst st = y # fst x \<and> toLowerChar y = toLowerChar k"
  by (cases st) (auto simp add: ci_def split: list.splits if_splits)

lemma runRegex_lit:
  "x \<in> set (runRegex (lit k) st) \<Longrightarrow> \<exists>w. fst st = w @ fst x \<and> toLowerCase w = toLowerCase k"
proof (induction k arbitrary: st)
  case Nil
  then show ?case by (cases st) (simp add: lit_def toLowerCase_def)
next
  case (Cons a k)
  from Cons.prems have "x \<in> set (runRegex (seqs (ci a # map ci k)) st)" by (simp add: lit_def)
  then obtain mid where mid: "mid \<in> set (runRegex (ci a) st)"
    and x: "x \<in> set (runRegex (lit k) mid)"
    using runRegex_seqs_Cons unfolding lit_def by blast
  from runRegex_ci [OF mid] obtain y where y: "fst st = y # fst mid" "toLowerChar y = toLowerChar a"
    by blast
  from Cons.IH [OF x] obtain w where w: "fst mid = w @ fst x" "toLowerCase w = toLowerCase k"
    by blast
  from y w have "fst st = (y # w) @ fst x \<and> toLowerCase (y # w) = toLowerCase (a # k)"
    by (simp add: toLowerCase_def)
  then show ?case by blast
qed

lemma runRegex_alts:
  "x \<in> set (runRegex (alts rs) st) \<Longrightarrow> \<exists>r \<in> set rs. x \<in> set (runRegex r st)"
proof (induction rs rule: alts.induct)
  case 1
  then show ?case by (cases st) (auto split: list.splits)
next
  case (2 r)
  then show ?case by simp
next
  case (3 r v va)
  then show ?case by (cases st) auto
qed

lemma runRegex_lits:
  "x \<in> set (runRegex (lits ks) st) \<Longrightarrow>
   \<exists>k \<in> set ks. \<exists>w. fst st = w @ fst x \<and> toLowerCase w = toLowerCase k"
proof -
  assume "x \<in> set (runRegex (lits ks) st)"
  then obtain r where "r \<in> set (map lit ks)" "x \<in> set (runRegex r st)"
    using runRegex_alts unfolding lits_def by blast
  then obtain k where k: "k \<in> set ks" "x \<in> set (runRegex (lit k) st)" by auto
  from runRegex_lit [OF k(2)] k(1) show ?thesis by blast
qed

lemma runRegex_Grp:
  "x \<in> set (runRegex (Grp i r) st) \<Longrightarrow> \<exists>y \<in> set (runRegex r st). fst y = fst x"
proof -
  assume a: "x \<in> set (runRegex (Grp i r) st)"
  obtain s c where st: "st = (s, c)" by (cases st)
  from a obtain y where y: "y \<in> set (runRegex r (s, c))"
    "x = (case y of (s', c') \<Rightarrow> (s', (i, take (length s - length s') s) # c'))"
    unfolding st by auto
  obtain s' c' where "y = (s', c')" by (cases y)
  with y have "fst y = fst x" by simp
  with y(1) show ?thesis unfolding st by blast
qed

lemma searchFrom_Some:
  "searchFrom r s = Some x \<Longrightarrow> \<exists>a t. s = a @ t \<and> x \<in> set (runRegex r (t, []))"
proof (induction s)
  case Nil
  then show ?case by (auto split: list.splits)
next
  case (Cons c s)
  show ?case
  proof (cases "runRegex r (c # s, [])")
    case Nil
    with Cons.prems have "searchFrom r s = Some x" by simp
    then obtain a t where "s = a @ t" "x \<in> set (runRegex r (t, []))" using Cons.IH by blast
    then have "c # s = (c # a) @ t \<and> x \<in> set (runRegex r (t, []))" by simp
    then show ?thesis by blast
  next
    case (Cons y ys)
    with Cons.prems have "x \<in> set (runRegex r (c # s, []))" by simp
    then have "c # s = [] @ (c # s) \<and> x \<in> set (runRegex r (c # s, []))" by simp
    then show ?thesis by blast
  qed
qed

lemma runRegex_seqs_Cons_iff:
  "x \<in> set (runRegex (seqs (r # rs)) st) \<longleftrightarrow>
   (\<exists>mid \<in> set (runRegex r st). x \<in> set (runRegex (seqs rs) mid))"
proof (cases rs)
  case Nil
  have "y \<in> set (runRegex Eps mid) \<longleftrightarrow> y = mid" for y mid by (cases mid) auto
  with Nil show ?thesis by simp
next
  case (Cons a as)
  then show ?thesis by (cases st) auto
qed

lemma runRegex_seqs_append:
  "x \<in> set (runRegex (seqs (rs @ ts)) st) \<Longrightarrow>
   \<exists>mid \<in> set (runRegex (seqs rs) st). x \<in> set (runRegex (seqs ts) mid)"
proof (induction rs arbitrary: st)
  case Nil
  then show ?case by (cases st) simp
next
  case (Cons r rs)
  from Cons.prems have "x \<in> set (runRegex (seqs (r # (rs @ ts))) st)" by simp
  then obtain m1 where m1: "m1 \<in> set (runRegex r st)" "x \<in> set (runRegex (seqs (rs @ ts)) m1)"
    unfolding runRegex_seqs_Cons_iff by blast
  from Cons.IH [OF m1(2)] obtain m2 where m2: "m2 \<in> set (runRegex (seqs rs) m1)"
    "x \<in> set (runRegex (seqs ts) m2)" by blast
  from m1(1) m2(1) have "m2 \<in> set (runRegex (seqs (r # rs)) st)"
    unfolding runRegex_seqs_Cons_iff by blast
  with m2(2) show ?case by blast
qed

section \<open>Properties of the Location Extractor\<close>

lemma containsStreetType_iff:
  "containsStreetType text \<longleftrightarrow>
   (\<exists>k \<in> set streetTypes. \<exists>a b. toLowerCase text = a @ toLowerCase k @ b)"
  by (simp add: containsStreetType_def list_ex_iff includesStr_iff)

lemma containsStreetType_append:
  assumes "containsStreetType t"
  shows "containsStreetType (a @ t)"
proof -
  from assms obtain k u v where k: "k \<in> set streetTypes" "toLowerCase t = u @ toLowerCase k @ v"
    unfolding containsStreetType_iff by blast
  then have "toLowerCase (a @ t) = (toLowerCase a @ u) @ toLowerCase k @ v"
    by (simp add: toLowerCase_append)
  with k(1) show ?thesis unfolding containsStreetType_iff by blast
qed

text \<open>Whatever \<open>addressCore\<close> matches holds a street type.\<close>

lemma addressCore_street:
  assumes "x \<in> set (runRegex addressCore st)"
  shows "containsStreetType (fst st)"
proof -
  have "addressCore = seqs ([plus (Chr isDigit), ws1, words, ws1]
                            @ [lits streetTypes, opt (ch CHR ''.'')])"
    by (simp add: addressCore_def)
  with assms obtain m1 where m1: "m1 \<in> set (runRegex (seqs [plus (Chr isDigit), ws1, words, ws1]) st)"
    "x \<in> set (runRegex (seqs [lits streetTypes, opt (ch CHR ''.'')]) m1)"
    using runRegex_seqs_append by metis
  from m1(2) obtain m2 where m2: "m2 \<in> set (runRegex (lits streetTypes) m1)"
    unfolding runRegex_seqs_Cons_iff by blast
  from runRegex_suffix [OF m1(1)] obtain u where u: "fst st = u @ fst m1" by blast
  from runRegex_lits [OF m2] obtain k w where k: "k \<in> set streetTypes"
    "fst m1 = w @ fst m2" "toLowerCase w = toLowerCase k" by blast
  from u k have "toLowerCase (fst st) = toLowerCase u @ toLowerCase k @ toLowerCase (fst m2)"
    by (simp add: toLowerCase_append)
  with k(1) show ?thesis unfolding containsStreetType_iff by blast
qed

lemma addressPatterns_street:
  assumes "p \<in> set addressPatterns" and "x \<in> set (runRegex p st)"
  shows "containsStreetType (fst st)"
proof -
  from assms(1) consider
      "p = seqs ([lits [''at'', ''on'', ''near'', ''in''], ws1] @ [Grp 1 addressCore])"
    | "p = Grp 1 addressCore"
    | "p = Grp 1 (seqs (addressCore #
             [opt (seqs [opt (ch CHR '',''), ws1, lits [''in'', ''at'', ''near''], ws1]), words]))"
    by (auto simp add: addressPatterns_def)
  then show ?thesis
  proof cases
    case 1
    with assms(2) obtain m1 where m1:
      "m1 \<in> set (runRegex (seqs [lits [''at'', ''on'', ''near'', ''in''], ws1]) st)"
      "x \<in> set (runRegex (seqs [Grp 1 addressCore]) m1)"
      using runRegex_seqs_append by metis
    from m1(2) have "x \<in> set (runRegex (Grp 1 addressCore) m1)" by simp
    then obtain y where "y \<in> set (runRegex addressCore m1)" using runRegex_Grp by blast
    then have "containsStreetType (fst m1)" by (rule addressCore_street)
    moreover from runRegex_suffix [OF m1(1)] obtain u where "fst st = u @ fst m1" by blast
    ultimately show ?thesis using containsStreetType_append by simp
  next
    case 2
    with assms(2) obtain y where "y \<in> set (runRegex addressCore st)" using runRegex_Grp by blast
    then show ?thesis by (rule addressCore_street)
  next
    case 3
    with assms(2) obtain y where "y \<in> set (runRegex (seqs (addressCore #
             [opt (seqs [opt (ch CHR '',''), ws1, lits [''in'', ''at'', ''near''], ws1]), words])) st)"
      using runRegex_Grp by blast
    then obtain m1 where "m1 \<in> set (runRegex addressCore st)"
      unfolding runRegex_seqs_Cons_iff by blast
    then show ?thesis by (rule addressCore_street)
  qed
qed

lemma regexMatch_address_street:
  assumes "p \<in> set addressPatterns" and "regexMatch p text = Some c"
  shows "containsStreetType text"
proof -
  from assms(2) obtain x where "searchFrom p text = Some x" by (auto simp add: regexMatch_def)
  then obtain a t where at: "text = a @ t" "x \<in> set (runRegex p (t, []))"
    using searchFrom_Some by blast
  from addressPatterns_street [OF assms(1) at(2)] have "containsStreetType t" by simp
  with at(1) show ?thesis using containsStreetType_append by simp
qed

lemma firstSome_Some: "firstSome f xs = Some y \<Longrightarrow> \<exists>x \<in> set xs. f x = Some y"
  by (induction xs) (auto split: option.splits)

lemma tryAddress_Some:
  assumes "tryAddress text p = Some a"
  shows "regexMatch p text \<noteq> None"
    and "includesStr (toLowerCase text) ''alert'' \<Longrightarrow> includesStr (toLowerCase a) ''st''"
proof -
  show "regexMatch p text \<noteq> None"
    using assms by (auto simp add: tryAddress_def split: option.splits)
  assume alert: "includesStr (toLowerCase text) ''alert''"
  have "includesStr ''street'' ''st''" by simp
  then have "includesStr (toLowerCase a) ''street'' \<Longrightarrow> includesStr (toLowerCase a) ''st''"
    using includesStr_trans by blast
  with assms alert show "includesStr (toLowerCase a) ''st''"
    by (auto simp add: tryAddress_def Let_def split: option.splits if_splits)
qed

lemma addressStage_Some:
  "addressStage text = Some a \<Longrightarrow> \<exists>p \<in> set addressPatterns. tryAddress text p = Some a"
  unfolding addressStage_def by (rule firstSome_Some)

lemma placeStage_confidence:
  "placeStage t = Some r \<Longrightarrow> matchConfidence r = 95 / 100 \<or> matchConfidence r = 75 / 100"
  by (auto simp add: placeStage_def split: option.splits if_splits)

lemma extractTextLocation_address:
  assumes "matchConfidence (extractTextLocation text) = 9 / 10"
  shows "\<exists>a. addressStage text = Some a \<and> matchLocation (extractTextLocation text) = a"
proof (cases "placeStage (toLowerCase text)")
  case (Some r)
  with placeStage_confidence [OF Some] assms show ?thesis
    by (auto simp add: extractTextLocation_def)
next
  case None
  with assms show ?thesis
    by (auto simp add: extractTextLocation_def split: option.splits)
qed

lemma sortedPlaces_eq: "sortedPlaces = specificPlaces"
  by code_simp

lemma sortedPlaces_sorted:
  "sorted_wrt (\<lambda>a b. place_priority a \<le> place_priority b) sortedPlaces"
  by (simp add: sortedPlaces_eq specificPlaces_def mkPlace_def)

lemma sortedPlaces_priority: "q \<in> set sortedPlaces \<Longrightarrow> 1 \<le> place_priority q"
  by (auto simp add: sortedPlaces_eq specificPlaces_def mkPlace_def)

text \<open>The first place of the sorted table that the text mentions is of tier 1 as soon as
  the text mentions some place of tier 1, and the first stage returns it.\<close>

lemma placeStage_tier1:
  assumes "pl \<in> set specificPlaces" and "place_priority pl = 1" and "mentions t pl"
  shows "\<exists>q. List.find (mentions t) specificPlaces = Some q \<and> place_priority q = 1 \<and>
           placeStage t = Some \<lparr>matchLocation = place_name q, matchConfidence = 95 / 100\<rparr>"
proof -
  let ?P = "\<lambda>pl. list_ex (includesStr t) (place_keywords pl)"
  have P: "mentions t = ?P" by (rule ext) (simp add: mentions_def)
  from assms(1) obtain j where j: "j < length sortedPlaces" "sortedPlaces ! j = pl"
    unfolding sortedPlaces_eq in_set_conv_nth by blast
  from assms(3) have Ppl: "?P pl" by (simp add: mentions_def)
  with assms(1) have "List.find ?P sortedPlaces \<noteq> None"
    unfolding find_None_iff sortedPlaces_eq by blast
  then obtain q where q: "List.find ?P sortedPlaces = Some q" by blast
  then obtain i where i: "i < length sortedPlaces" "?P (sortedPlaces ! i)"
    "q = sortedPlaces ! i" "\<forall>k < i. \<not> ?P (sortedPlaces ! k)"
    unfolding find_Some_iff by blast
  from i(4) j Ppl have "i \<le> j" by (meson not_le)
  have "place_priority q \<le> place_priority pl"
  proof (cases "i = j")
    case True
    with i(3) j(2) show ?thesis by simp
  next
    case False
    with \<open>i \<le> j\<close> have "i < j" by simp
    with sortedPlaces_sorted j(1) i(3) j(2) show ?thesis
      using sorted_wrt_nth_less by blast
  qed
  moreover from i(1,3) have qin: "q \<in> set sortedPlaces" by simp
  then have "1 \<le> place_priority q" by (rule sortedPlaces_priority)
  ultimately have one: "place_priority q = 1" using assms(2) by simp
  moreover from q have "List.find (mentions t) specificPlaces = Some q"
    unfolding P sortedPlaces_eq .
  moreover from q one
  have "placeStage t = Some \<lparr>matchLocation = place_name q, matchConfidence = 95 / 100\<rparr>"
    by (simp add: placeStage_def)
  ultimately show ?thesis by blast
qed

text \<open>
  C4 as stated fails when the text mentions two venues of tier 1: the post below contains
  the keyword of Hoover Tower, but the scan of the table meets Stanford University first
  and returns its name.
\<close>

theorem extractPostLocation_counterexample:
  "mkPlace ''Hoover Tower'' [''hoover tower''] 1 \<in> set specificPlaces
   \<and> place_priority (mkPlace ''Hoover Tower'' [''hoover tower''] 1) = 1
   \<and> mentions
       (toLowerCase (post_text
          (examplePost ''1'' ''Shots fired at Hoover Tower, Stanford University'' 10 0)))
       (mkPlace ''Hoover Tower'' [''hoover tower''] 1)
   \<and> extractPostLocation
       (examplePost ''1'' ''Shots fired at Hoover Tower, Stanford University'' 10 0)
       = \<lparr>matchLocation = ''Stanford University'', matchConfidence = 95 / 100\<rparr>
   \<and> ''Stanford University'' \<noteq> place_name (mkPlace ''Hoover Tower'' [''hoover tower''] 1)"
  by code_simp

text \<open>
  C4, amended: for every post whose lower-cased text contains a keyword of a tier-1 venue
  of the named-place catalogue, \<open>extractPostLocation\<close> returns confidence 0.95 and the
  name of the first venue, in the order of the catalogue, one of whose keywords is in
  the text; that venue is of tier 1, whatever tier-3 city keywords occur in the same
  text. It is the name of the given venue when no tier-1 venue of another name is
  mentioned.
\<close>

theorem extractPostLocation_tier1:
  assumes "pl \<in> set specificPlaces" and "place_priority pl = 1"
    and "mentions (toLowerCase (post_text post)) pl"
  shows "matchConfidence (extractPostLocation post) = 95 / 100
    \<and> (\<exists>q. List.find (mentions (toLowerCase (post_text post))) specificPlaces = Some q
          \<and> place_priority q = 1
          \<and> matchLocation (extractPostLocation post) = place_name q)
    \<and> ((\<forall>q \<in> set specificPlaces. place_priority q = 1
            \<and> mentions (toLowerCase (post_text post)) q \<longrightarrow> place_name q = place_name pl)
        \<longrightarrow> matchLocation (extractPostLocation post) = place_name pl)"
proof -
  from placeStage_tier1 [OF assms] obtain q where q:
    "List.find (mentions (toLowerCase (post_text post))) specificPlaces = Some q"
    "place_priority q = 1"
    "placeStage (toLowerCase (post_text post))
       = Some \<lparr>matchLocation = place_name q, matchConfidence = 95 / 100\<rparr>"
    by blast
  from q(1) have qin: "q \<in> set specificPlaces" "mentions (toLowerCase (post_text post)) q"
    unfolding find_Some_iff by auto
  from q(3) have r: "extractPostLocation post
       = \<lparr>matchLocation = place_name q, matchConfidence = 95 / 100\<rparr>"
    by (simp add: extractPostLocation_def extractTextLocation_def)
  from r have "matchConfidence (extractPostLocation post) = 95 / 100" by simp
  moreover from r q have "\<exists>q. List.find (mentions (toLowerCase (post_text post))) specificPlaces
            = Some q
          \<and> place_priority q = 1
          \<and> matchLocation (extractPostLocation post) = place_name q"
    by auto
  moreover from r q(2) qin have "(\<forall>q \<in> set specificPlaces. place_priority q = 1
            \<and> mentions (toLowerCase (post_text post)) q \<longrightarrow> place_name q = place_name pl)
        \<longrightarrow> matchLocation (extractPostLocation post) = place_name pl"
    by auto
  ultimately show ?thesis by blast
qed

lemma example_tier1_inputs:
  "mkPlace ''Stanford University'' [''stanford university'', ''stanford campus''] 1
     \<in> set specificPlaces"
  "place_priority
     (mkPlace ''Stanford University'' [''stanford university'', ''stanford campus''] 1) = 1"
  "mentions
     (toLowerCase (post_text
        (examplePost ''1'' ''Shooting at Stanford University in Palo Alto'' 10 0)))
     (mkPlace ''Stanford University'' [''stanford university'', ''stanford campus''] 1)"
  "\<forall>q \<in> set specificPlaces. place_priority q = 1
      \<and> mentions
          (toLowerCase (post_text
             (examplePost ''1'' ''Shooting at Stanford University in Palo Alto'' 10 0))) q
      \<longrightarrow> place_name q = place_name
            (mkPlace ''Stanford University'' [''stanford university'', ''stanford campus''] 1)"
  "mentions
     (toLowerCase (post_text
        (examplePost ''1'' ''Shooting at Stanford University in Palo Alto'' 10 0)))
     (mkPlace ''Palo Alto'' [''palo alto''] 3)"
  by code_simp+

theorem extractPostLocation_tier1_witness:
  "mkPlace ''Stanford University'' [''stanford university'', ''stanford campus''] 1
     \<in> set specificPlaces
   \<and> mentions
       (toLowerCase (post_text
          (examplePost ''1'' ''Shooting at Stanford University in Palo Alto'' 10 0)))
       (mkPlace ''Stanford University'' [''stanford university'', ''stanford campus''] 1)
   \<and> mentions
       (toLowerCase (post_text
          (examplePost ''1'' ''Shooting at Stanford University in Palo Alto'' 10 0)))
       (mkPlace ''Palo Alto'' [''palo alto''] 3)
   \<and> matchConfidence
       (extractPostLocation (examplePost ''1'' ''Shooting at Stanford University in Palo Alto'' 10 0))
       = 95 / 100
   \<and> matchLocation
       (extractPostLocation (examplePost ''1'' ''Shooting at Stanford University in Palo Alto'' 10 0))
       = ''Stanford University''"
  using extractPostLocation_tier1
    [of "mkPlace ''Stanford University'' [''stanford university'', ''stanford campus''] 1"
        "examplePost ''1'' ''Shooting at Stanford University in Palo Alto'' 10 0",
     OF example_tier1_inputs(1,2,3)]
    example_tier1_inputs
  by (simp add: mkPlace_def)

text \<open>
  C5, evaluated on the code: the text below contains ``Emergency Alert'' and none of its
  words is a street type, yet the second address pattern matches ``5 people st'' inside
  ``5 people stranded'' (the pattern ignores case and puts no word boundary after the
  street type), the guard lets the capture through because it contains ``st'', and the
  address is the result of the extractor, with confidence 0.9.
\<close>

theorem address_pattern_fires_without_street_token:
  "includesStr ''Emergency Alert 5 people stranded'' ''Emergency Alert''
   \<and> \<not> hasStreetTypeToken ''Emergency Alert 5 people stranded''
   \<and> addressStage ''Emergency Alert 5 people stranded'' = Some ''5 people st''
   \<and> extractTextLocation ''Emergency Alert 5 people stranded''
       = \<lparr>matchLocation = ''5 people st'', matchConfidence = 9 / 10\<rparr>"
  by code_simp

text \<open>
  What the address stage does guarantee: when no street type occurs anywhere in the text
  (without regard to case, inside a longer word or not), no address pattern produces the
  result; and when the lower-cased text contains ``alert'', an address match, of one
  pattern or of the whole stage, is accepted only if the trimmed capture contains ``st''
  (which ``street'' does).
\<close>

lemma address_pattern_guard:
  "(\<not> containsStreetType text \<longrightarrow>
      addressStage text = None \<and> matchConfidence (extractTextLocation text) \<noteq> 9 / 10)
   \<and> (includesStr (toLowerCase text) ''alert'' \<and> tryAddress text p = Some a
        \<longrightarrow> includesStr (toLowerCase a) ''st'')
   \<and> (includesStr (toLowerCase text) ''alert'' \<and> addressStage text = Some b
        \<longrightarrow> includesStr (toLowerCase b) ''st'')"
proof (intro conjI impI)
  assume no: "\<not> containsStreetType text"
  show none: "addressStage text = None"
  proof (rule ccontr)
    assume "addressStage text \<noteq> None"
    then obtain x where "addressStage text = Some x" by blast
    then obtain q where q: "q \<in> set addressPatterns" "tryAddress text q = Some x"
      using addressStage_Some by blast
    from tryAddress_Some(1) [OF q(2)] obtain c where "regexMatch q text = Some c" by blast
    with q(1) no show False using regexMatch_address_street by blast
  qed
  show "matchConfidence (extractTextLocation text) \<noteq> 9 / 10"
    using extractTextLocation_address [of "text"] none by auto
next
  assume "includesStr (toLowerCase text) ''alert'' \<and> tryAddress text p = Some a"
  then show "includesStr (toLowerCase a) ''st''" using tryAddress_Some(2) by blast
next
  assume h: "includesStr (toLowerCase text) ''alert'' \<and> addressStage text = Some b"
  then obtain q where "tryAddress text q = Some b" using addressStage_Some by blast
  with h show "includesStr (toLowerCase b) ''st''" using tryAddress_Some(2) by blast
qed

section \<open>Properties of the Incident Anchoring Engine\<close>

lemma findIndex_Some: "findIndex P xs = Some i \<Longrightarrow> i < length xs \<and> P (xs ! i)"
proof (induction xs arbitrary: i)
  case Nil
  then show ?case by simp
next
  case (Cons x xs)
  show ?case
  proof (cases "P x")
    case True
    with Cons.prems show ?thesis by simp
  next
    case False
    with Cons.prems obtain j where j: "findIndex P xs = Some j" "i = Suc j" by auto
    with Cons.IH [OF j(1)] show ?thesis by simp
  qed
qed

lemma findIndex_None: "findIndex P xs = None \<longleftrightarrow> (\<forall>x \<in> set xs. \<not> P x)"
  by (induction xs) auto

subsection \<open>No post id occurs twice in the clusters\<close>

lemma clusterIds_snoc: "clusterIds (xs @ [c]) = clusterIds xs @ map post_id (posts c)"
  by (simp add: clusterIds_def)

lemma clusterIds_update:
  assumes "i < length xs" and "posts c = posts (xs ! i) @ [p]"
  shows "set (clusterIds (xs[i := c])) = insert (post_id p) (set (clusterIds xs))"
    and "distinct (clusterIds xs) \<Longrightarrow> post_id p \<notin> set (clusterIds xs)
         \<Longrightarrow> distinct (clusterIds (xs[i := c]))"
proof -
  from assms(1) have new: "xs[i := c] = take i xs @ c # drop (Suc i) xs"
    by (rule upd_conv_take_nth_drop)
  from assms(1) have old: "xs = take i xs @ xs ! i # drop (Suc i) xs"
    by (rule id_take_nth_drop)
  have n: "clusterIds (xs[i := c])
      = clusterIds (take i xs) @ (map post_id (posts (xs ! i)) @ [post_id p])
        @ clusterIds (drop (Suc i) xs)"
    unfolding new by (simp add: clusterIds_def assms(2))
  have "clusterIds xs = clusterIds (take i xs @ xs ! i # drop (Suc i) xs)"
    using old by simp
  then have o: "clusterIds xs
      = clusterIds (take i xs) @ map post_id (posts (xs ! i)) @ clusterIds (drop (Suc i) xs)"
    by (simp add: clusterIds_def)
  show "set (clusterIds (xs[i := c])) = insert (post_id p) (set (clusterIds xs))"
    unfolding n o by auto
  show "distinct (clusterIds xs) \<Longrightarrow> post_id p \<notin> set (clusterIds xs)
         \<Longrightarrow> distinct (clusterIds (xs[i := c]))"
    unfolding n o by auto
qed

text \<open>The invariant of both passes: the ids in the clusters are distinct, and they are
  the ids in \<open>processed\<close>.\<close>

lemma pass1Step_ids:
  assumes "distinct (clusterIds (fst st))" and "set (clusterIds (fst st)) = snd st"
  shows "distinct (clusterIds (fst (pass1Step post st)))
       \<and> set (clusterIds (fst (pass1Step post st))) = snd (pass1Step post st)"
proof -
  obtain incs pr where st: "st = (incs, pr)" by (cases st)
  let ?f = "findIndex (matchesPass1 (extractPostLocation post) (extractTopics post)
              (timestamp post)) incs"
  show ?thesis
  proof (cases "post_id post \<in> pr \<or> matchConfidence (extractPostLocation post) < 5 / 10")
    case True
    then have "pass1Step post st = st" by (auto simp add: pass1Step_def st Let_def)
    with assms show ?thesis by simp
  next
    case False
    then have new: "post_id post \<notin> set (clusterIds incs)" using assms(2) st by simp
    show ?thesis
    proof (cases ?f)
      case None
      with False have "pass1Step post st
          = (incs @ [\<lparr>posts = [post], location = matchLocation (extractPostLocation post),
                      topics = extractTopics post, clusterTimestamp = timestamp post\<rparr>],
             insert (post_id post) pr)"
        by (simp add: pass1Step_def st Let_def)
      with assms new st show ?thesis by (auto simp add: clusterIds_snoc)
    next
      case (Some i)
      let ?c = "attachPass1 post (extractPostLocation post) (extractTopics post)
                  (timestamp post) (incs ! i)"
      from Some False have step: "pass1Step post st = (incs[i := ?c], insert (post_id post) pr)"
        by (simp add: pass1Step_def st Let_def)
      from Some have i: "i < length incs" using findIndex_Some by blast
      have p: "posts ?c = posts (incs ! i) @ [post]" by (simp add: attachPass1_def Let_def)
      from clusterIds_update [OF i p] assms new st step show ?thesis by simp
    qed
  qed
qed

lemma pass2Step_ids:
  assumes "distinct (clusterIds (fst st))" and "set (clusterIds (fst st)) = snd st"
  shows "distinct (clusterIds (fst (pass2Step post st)))
       \<and> set (clusterIds (fst (pass2Step post st))) = snd (pass2Step post st)"
proof -
  obtain incs pr where st: "st = (incs, pr)" by (cases st)
  let ?f = "findIndex (matchesPass2 (toLowerCase (post_text post)) (extractTopics post)
              (timestamp post)) incs"
  show ?thesis
  proof (cases "post_id post \<in> pr \<or> ?f = None")
    case True
    then have "pass2Step post st = st" by (auto simp add: pass2Step_def st Let_def)
    with assms show ?thesis by simp
  next
    case False
    then obtain i where Some: "?f = Some i" by blast
    from False have new: "post_id post \<notin> set (clusterIds incs)" using assms(2) st by simp
    let ?c = "attachPass2 post (extractTopics post) (incs ! i)"
    from Some False have step: "pass2Step post st = (incs[i := ?c], insert (post_id post) pr)"
      by (simp add: pass2Step_def st Let_def)
    from Some have i: "i < length incs" using findIndex_Some by blast
    have p: "posts ?c = posts (incs ! i) @ [post]" by (simp add: attachPass2_def)
    from clusterIds_update [OF i p] assms new st step show ?thesis by simp
  qed
qed

lemma pass1_ids:
  "distinct (clusterIds (fst st)) \<Longrightarrow> set (clusterIds (fst st)) = snd st \<Longrightarrow>
   distinct (clusterIds (fst (pass1 ps st))) \<and> set (clusterIds (fst (pass1 ps st))) = snd (pass1 ps st)"
proof (induction ps arbitrary: st)
  case Nil
  then show ?case by (simp add: pass1_def)
next
  case (Cons p ps)
  from pass1Step_ids [OF Cons.prems] Cons.IH [of "pass1Step p st"]
  show ?case by (simp add: pass1_def)
qed

lemma pass2_ids:
  "distinct (clusterIds (fst st)) \<Longrightarrow> set (clusterIds (fst st)) = snd st \<Longrightarrow>
   distinct (clusterIds (fst (pass2 ps st))) \<and> set (clusterIds (fst (pass2 ps st))) = snd (pass2 ps st)"
proof (induction ps arbitrary: st)
  case Nil
  then show ?case by (simp add: pass2_def)
next
  case (Cons p ps)
  from pass2Step_ids [OF Cons.prems] Cons.IH [of "pass2Step p st"]
  show ?case by (simp add: pass2_def)
qed

lemma clusterIds_filter: "distinct (clusterIds xs) \<Longrightarrow> distinct (clusterIds (filter P xs))"
  by (induction xs) (auto simp add: clusterIds_def)

lemma clusterIds_nth:
  assumes "distinct (clusterIds xs)" and "i < length xs"
  shows "distinct (map post_id (posts (xs ! i)))"
    and "j < length xs \<Longrightarrow> i \<noteq> j \<Longrightarrow>
         set (map post_id (posts (xs ! i))) \<inter> set (map post_id (posts (xs ! j))) = {}"
proof -
  let ?ys = "map (\<lambda>c. map post_id (posts c)) xs"
  from assms(1) have d: "distinct (concat ?ys)" by (simp add: clusterIds_def)
  from assms(2) have "?ys ! i \<in> set ?ys" by (metis length_map nth_mem)
  with d have "distinct (?ys ! i)" using distinct_concat_iff by blast
  with assms(2) show "distinct (map post_id (posts (xs ! i)))" by simp
  assume j: "j < length xs" "i \<noteq> j"
  have "set (?ys ! i) \<inter> set (?ys ! j) = {}"
  proof (rule ccontr)
    assume "set (?ys ! i) \<inter> set (?ys ! j) \<noteq> {}"
    then obtain x where x: "x \<in> set (?ys ! i)" "x \<in> set (?ys ! j)" by blast
    define a where "a = min i j"
    define b where "b = max i j"
    from j assms(2) have ab: "a < b" "b < length ?ys" by (auto simp add: a_def b_def)
    from x have xa: "x \<in> set (?ys ! a)" and xb: "x \<in> set (?ys ! b)"
      by (auto simp add: a_def b_def min_def max_def)
    from ab have split: "?ys = take b ?ys @ ?ys ! b # drop (Suc b) ?ys"
      using id_take_nth_drop by blast
    from ab have "?ys ! a = take b ?ys ! a" by simp
    moreover from ab have "a < length (take b ?ys)" by simp
    ultimately have "?ys ! a \<in> set (take b ?ys)" by (metis nth_mem)
    with xa have "x \<in> set (concat (take b ?ys))" by auto
    moreover from d split have "distinct (concat (take b ?ys) @ ?ys ! b @ concat (drop (Suc b) ?ys))"
      by (metis concat.simps(2) concat_append)
    ultimately show False using xb by auto
  qed
  with assms(2) j show "set (map post_id (posts (xs ! i))) \<inter> set (map post_id (posts (xs ! j))) = {}"
    by simp
qed

text \<open>
  C10: the clusters returned by \<open>anchorIncidentsToLocations\<close> are pairwise disjoint and
  free of duplicates, as measured by post id: the ids of all clusters, listed cluster
  after cluster, are distinct; so no cluster holds an id twice and no two clusters share
  an id. This holds for every batch, in particular for a batch with unique post ids.
\<close>

theorem anchor_clusters_disjoint:
  "distinct (clusterIds (anchorIncidentsToLocations batch))
   \<and> (\<forall>i < length (anchorIncidentsToLocations batch).
        distinct (map post_id (posts (anchorIncidentsToLocations batch ! i))))
   \<and> (\<forall>i < length (anchorIncidentsToLocations batch).
       \<forall>j < length (anchorIncidentsToLocations batch). i \<noteq> j \<longrightarrow>
         set (map post_id (posts (anchorIncidentsToLocations batch ! i)))
         \<inter> set (map post_id (posts (anchorIncidentsToLocations batch ! j))) = {})"
proof -
  have init: "distinct (clusterIds (fst (([], {}) :: cluster list \<times> string set)))"
    "set (clusterIds (fst (([], {}) :: cluster list \<times> string set))) = snd (([], {}) :: cluster list \<times> string set)"
    by (simp_all add: clusterIds_def)
  from pass1_ids [OF init, of batch]
  have "distinct (clusterIds (fst (pass1 batch ([], {}))))"
    "set (clusterIds (fst (pass1 batch ([], {})))) = snd (pass1 batch ([], {}))"
    by simp_all
  from pass2_ids [OF this, of batch]
  have "distinct (clusterIds (fst (pass2 batch (pass1 batch ([], {})))))" by simp
  then have d: "distinct (clusterIds (anchorIncidentsToLocations batch))"
    unfolding anchorIncidentsToLocations_def by (rule clusterIds_filter)
  with clusterIds_nth [OF d] show ?thesis by blast
qed

lemma mallBatch_clusters:
  "map (\<lambda>c. map post_id (posts c)) (anchorIncidentsToLocations mallBatch)
     = [[''1'', ''3''], [''2'']]"
  by code_simp

theorem anchor_clusters_disjoint_witness:
  "length (anchorIncidentsToLocations mallBatch) = 2
   \<and> distinct (map post_id (posts (anchorIncidentsToLocations mallBatch ! 0)))
   \<and> set (map post_id (posts (anchorIncidentsToLocations mallBatch ! 0)))
     \<inter> set (map post_id (posts (anchorIncidentsToLocations mallBatch ! 1))) = {}"
proof -
  have len: "length (anchorIncidentsToLocations mallBatch) = 2"
    using arg_cong [OF mallBatch_clusters, of length] by simp
  with anchor_clusters_disjoint [of mallBatch] show ?thesis by auto
qed

subsection \<open>The second pass leaves locations and timestamps alone\<close>

lemma pass2Step_frame:
  "length (fst (pass2Step post st)) = length (fst st)
   \<and> map location (fst (pass2Step post st)) = map location (fst st)
   \<and> map clusterTimestamp (fst (pass2Step post st)) = map clusterTimestamp (fst st)"
proof -
  obtain incs pr where st: "st = (incs, pr)" by (cases st)
  let ?f = "findIndex (matchesPass2 (toLowerCase (post_text post)) (extractTopics post)
              (timestamp post)) incs"
  show ?thesis
  proof (cases "post_id post \<in> pr \<or> ?f = None")
    case True
    then have "pass2Step post st = st" by (auto simp add: pass2Step_def st Let_def)
    then show ?thesis by simp
  next
    case False
    then obtain i where Some: "?f = Some i" by blast
    let ?c = "attachPass2 post (extractTopics post) (incs ! i)"
    from Some False have step: "pass2Step post st = (incs[i := ?c], insert (post_id post) pr)"
      by (simp add: pass2Step_def st Let_def)
    from Some have i: "i < length incs" using findIndex_Some by blast
    have c: "location ?c = location (incs ! i)"
      "clusterTimestamp ?c = clusterTimestamp (incs ! i)"
      by (simp_all add: attachPass2_def)
    have "map location (incs[i := ?c]) = map location incs"
      using c(1) by (metis list_update_id map_update)
    moreover have "map clusterTimestamp (incs[i := ?c]) = map clusterTimestamp incs"
      using c(2) by (metis list_update_id map_update)
    ultimately show ?thesis using step st by simp
  qed
qed

lemma pass2_frame:
  "map location (fst (pass2 ps st)) = map location (fst st)
   \<and> map clusterTimestamp (fst (pass2 ps st)) = map clusterTimestamp (fst st)"
proof (induction ps arbitrary: st)
  case Nil
  then show ?case by (simp add: pass2_def)
next
  case (Cons p ps)
  from Cons.IH [of "pass2Step p st"] pass2Step_frame [of p st]
  show ?case by (simp add: pass2_def)
qed

text \<open>
  C9: when the second pass attaches a post (one not yet processed, for which the search
  finds the cluster at index \<open>i\<close>), the cluster gains the post at the end of its member
  list and the union of the topics, its location and its timestamp stay as they were,
  every other cluster is untouched and the id of the post is marked processed. Over the
  whole second pass the locations and the timestamps of the clusters do not change.
\<close>

theorem pass2_attach_frame:
  assumes "post_id post \<notin> pr"
    and "findIndex (matchesPass2 (toLowerCase (post_text post)) (extractTopics post)
           (timestamp post)) incs = Some i"
  shows "length (fst (pass2Step post (incs, pr))) = length incs
    \<and> posts (fst (pass2Step post (incs, pr)) ! i) = posts (incs ! i) @ [post]
    \<and> topics (fst (pass2Step post (incs, pr)) ! i)
        = unionTopics (topics (incs ! i)) (extractTopics post)
    \<and> location (fst (pass2Step post (incs, pr)) ! i) = location (incs ! i)
    \<and> clusterTimestamp (fst (pass2Step post (incs, pr)) ! i) = clusterTimestamp (incs ! i)
    \<and> (\<forall>j < length incs. j \<noteq> i \<longrightarrow> fst (pass2Step post (incs, pr)) ! j = incs ! j)
    \<and> snd (pass2Step post (incs, pr)) = insert (post_id post) pr
    \<and> map location (fst (pass2 ps (incs, pr))) = map location incs
    \<and> map clusterTimestamp (fst (pass2 ps (incs, pr))) = map clusterTimestamp incs"
proof -
  let ?c = "attachPass2 post (extractTopics post) (incs ! i)"
  from assms have step: "pass2Step post (incs, pr) = (incs[i := ?c], insert (post_id post) pr)"
    by (simp add: pass2Step_def Let_def)
  from assms(2) have i: "i < length incs" using findIndex_Some by blast
  have c: "posts ?c = posts (incs ! i) @ [post]"
    "topics ?c = unionTopics (topics (incs ! i)) (extractTopics post)"
    "location ?c = location (incs ! i)" "clusterTimestamp ?c = clusterTimestamp (incs ! i)"
    by (simp_all add: attachPass2_def)
  from pass2_frame [of ps "(incs, pr)"] step i c show ?thesis by simp
qed

lemma fallbackPost_inputs:
  "post_id fallbackPost \<notin> {''1''}"
  "findIndex (matchesPass2 (toLowerCase (post_text fallbackPost))
       (extractTopics fallbackPost) (timestamp fallbackPost)) ferryClusters = Some 0"
  by code_simp+

theorem pass2_attach_frame_witness:
  "post_id fallbackPost \<notin> {''1''}
   \<and> findIndex (matchesPass2 (toLowerCase (post_text fallbackPost))
        (extractTopics fallbackPost) (timestamp fallbackPost)) ferryClusters = Some 0
   \<and> posts (fst (pass2Step fallbackPost (ferryClusters, {''1''})) ! 0)
       = posts (ferryClusters ! 0) @ [fallbackPost]
   \<and> location (fst (pass2Step fallbackPost (ferryClusters, {''1''})) ! 0) = ''Ferry Building''
   \<and> clusterTimestamp (fst (pass2Step fallbackPost (ferryClusters, {''1''})) ! 0) = 0
   \<and> snd (pass2Step fallbackPost (ferryClusters, {''1''})) = {''2'', ''1''}"
  using pass2_attach_frame
    [of fallbackPost "{''1''}" ferryClusters 0 "[]", OF fallbackPost_inputs]
    fallbackPost_inputs
  by (simp add: ferryClusters_def fallbackPost_def examplePost_def)

subsection \<open>Recency is measured against the cluster, not between posts\<close>

text \<open>
  C6 as stated fails: the first and the third post of \<open>chainBatch\<close> have the same
  extracted location and lie 40 hours apart, but the second post, 20 hours after the
  first, advances the timestamp of their cluster, and all three end up in one cluster.
\<close>

theorem anchor_chain_counterexample:
  "extractPostLocation chainPost1 = extractPostLocation chainPost3
   \<and> hoursDiff (timestamp chainPost1) (timestamp chainPost3) = 40
   \<and> map (\<lambda>c. map post_id (posts c)) (anchorIncidentsToLocations chainBatch)
       = [[''1'', ''2'', ''3'']]"
  by code_simp

lemma farApart_sym: "farApart a b = farApart b a"
  by (simp add: farApart_def hoursDiff_def abs_minus_commute)

lemma farApart_irrefl: "\<not> farApart a a"
  by (simp add: farApart_def hoursDiff_def)

lemma matchesPass1_near:
  "matchesPass1 pl pt t c \<Longrightarrow> hoursDiff t (clusterTimestamp c) \<le> 24"
  by (simp add: matchesPass1_def Let_def split: if_splits)

lemma matchesPass2_near:
  "matchesPass2 tx pt t c \<Longrightarrow> hoursDiff t (clusterTimestamp c) \<le> 24"
  by (simp add: matchesPass2_def Let_def split: if_splits)

lemma nearIn_mono: "S \<subseteq> T \<Longrightarrow> nearIn S \<subseteq> nearIn T"
  by (auto simp add: nearIn_def)

text \<open>A post within 24 hours of a member can be added to a linked set.\<close>

lemma linked_insert:
  assumes conn: "\<forall>a \<in> S. \<forall>b \<in> S. (a, b) \<in> (nearIn S)\<^sup>*"
    and m: "m \<in> S" and near: "\<not> farApart p m"
  shows "\<forall>a \<in> insert p S. \<forall>b \<in> insert p S. (a, b) \<in> (nearIn (insert p S))\<^sup>*"
proof (intro ballI)
  fix a b
  assume a: "a \<in> insert p S" and b: "b \<in> insert p S"
  let ?R = "nearIn (insert p S)"
  have mono: "(nearIn S)\<^sup>* \<subseteq> ?R\<^sup>*"
    by (rule rtrancl_mono) (rule nearIn_mono, auto)
  from m near have pm: "(p, m) \<in> ?R" by (simp add: nearIn_def)
  from m near have mp: "(m, p) \<in> ?R" using farApart_sym by (simp add: nearIn_def)
  have to_m: "(x, m) \<in> ?R\<^sup>*" if "x \<in> insert p S" for x
  proof (cases "x = p")
    case True
    with pm show ?thesis by auto
  next
    case False
    with that have "x \<in> S" by simp
    with conn m mono show ?thesis by blast
  qed
  have from_m: "(m, x) \<in> ?R\<^sup>*" if "x \<in> insert p S" for x
  proof (cases "x = p")
    case True
    with mp show ?thesis by auto
  next
    case False
    with that have "x \<in> S" by simp
    with conn m mono show ?thesis by blast
  qed
  from to_m [OF a] from_m [OF b] show "(a, b) \<in> ?R\<^sup>*" by (rule rtrancl_trans)
qed

text \<open>A cluster that gains a post within 24 hours of its timestamp stays linked.\<close>

lemma linked_attach:
  assumes c: "set (posts c) \<subseteq> set B"
      "\<exists>m \<in> set (posts c). clusterTimestamp c = timestamp m"
      "\<forall>a \<in> set (posts c). \<forall>b \<in> set (posts c). (a, b) \<in> (nearIn (set (posts c)))\<^sup>*"
    and p: "p \<in> set B" "hoursDiff (timestamp p) (clusterTimestamp c) \<le> 24"
    and c': "posts c' = posts c @ [p]"
      "clusterTimestamp c' = clusterTimestamp c \<or> clusterTimestamp c' = timestamp p"
  shows "set (posts c') \<subseteq> set B
       \<and> (\<exists>m \<in> set (posts c'). clusterTimestamp c' = timestamp m)
       \<and> (\<forall>a \<in> set (posts c'). \<forall>b \<in> set (posts c'). (a, b) \<in> (nearIn (set (posts c')))\<^sup>*)"
proof -
  from c(2) obtain m where m: "m \<in> set (posts c)" "clusterTimestamp c = timestamp m" by blast
  with p(2) have near: "\<not> farApart p m" by (simp add: farApart_def)
  have set': "set (posts c') = insert p (set (posts c))" by (simp add: c'(1))
  from linked_insert [OF c(3) m(1) near]
  have "\<forall>a \<in> set (posts c'). \<forall>b \<in> set (posts c'). (a, b) \<in> (nearIn (set (posts c')))\<^sup>*"
    unfolding set' .
  moreover from c(1) p(1) have "set (posts c') \<subseteq> set B" unfolding set' by simp
  moreover from c'(2) m have "\<exists>m \<in> set (posts c'). clusterTimestamp c' = timestamp m"
    unfolding set' by auto
  ultimately show ?thesis by blast
qed

lemma linkedClusters_update:
  assumes "linkedClusters B incs"
    and "set (posts c') \<subseteq> set B
       \<and> (\<exists>m \<in> set (posts c'). clusterTimestamp c' = timestamp m)
       \<and> (\<forall>a \<in> set (posts c'). \<forall>b \<in> set (posts c'). (a, b) \<in> (nearIn (set (posts c')))\<^sup>*)"
  shows "linkedClusters B (incs[i := c'])" and "linkedClusters B (incs @ [c'])"
proof -
  have "set (incs[i := c']) \<subseteq> insert c' (set incs)" by (rule set_update_subset_insert)
  with assms show "linkedClusters B (incs[i := c'])" unfolding linkedClusters_def by blast
  from assms show "linkedClusters B (incs @ [c'])" unfolding linkedClusters_def by auto
qed

lemma pass1Step_linked:
  assumes "linkedClusters B (fst st)" and "p \<in> set B"
  shows "linkedClusters B (fst (pass1Step p st))"
proof -
  obtain incs pr where st: "st = (incs, pr)" by (cases st)
  let ?f = "findIndex (matchesPass1 (extractPostLocation p) (extractTopics p) (timestamp p)) incs"
  show ?thesis
  proof (cases "post_id p \<in> pr \<or> matchConfidence (extractPostLocation p) < 5 / 10")
    case True
    then have "pass1Step p st = st" by (auto simp add: pass1Step_def st Let_def)
    with assms(1) show ?thesis by simp
  next
    case False
    show ?thesis
    proof (cases ?f)
      case None
      let ?c = "\<lparr>posts = [p], location = matchLocation (extractPostLocation p),
                 topics = extractTopics p, clusterTimestamp = timestamp p\<rparr>"
      from None False have step: "pass1Step p st = (incs @ [?c], insert (post_id p) pr)"
        by (simp add: pass1Step_def st Let_def)
      have "set (posts ?c) \<subseteq> set B
       \<and> (\<exists>m \<in> set (posts ?c). clusterTimestamp ?c = timestamp m)
       \<and> (\<forall>a \<in> set (posts ?c). \<forall>b \<in> set (posts ?c). (a, b) \<in> (nearIn (set (posts ?c)))\<^sup>*)"
        using assms(2) by simp
      from linkedClusters_update(2) [OF _ this, of incs] assms(1) st step show ?thesis by simp
    next
      case (Some i)
      let ?c = "attachPass1 p (extractPostLocation p) (extractTopics p) (timestamp p) (incs ! i)"
      from Some False have step: "pass1Step p st = (incs[i := ?c], insert (post_id p) pr)"
        by (simp add: pass1Step_def st Let_def)
      from Some have i: "i < length incs"
        "matchesPass1 (extractPostLocation p) (extractTopics p) (timestamp p) (incs ! i)"
        using findIndex_Some by blast+
      from i(1) assms(1) st have old: "set (posts (incs ! i)) \<subseteq> set B"
        "\<exists>m \<in> set (posts (incs ! i)). clusterTimestamp (incs ! i) = timestamp m"
        "\<forall>a \<in> set (posts (incs ! i)). \<forall>b \<in> set (posts (incs ! i)).
           (a, b) \<in> (nearIn (set (posts (incs ! i))))\<^sup>*"
        unfolding linkedClusters_def by (simp_all add: nth_mem)
      have c': "posts ?c = posts (incs ! i) @ [p]"
        "clusterTimestamp ?c = clusterTimestamp (incs ! i) \<or> clusterTimestamp ?c = timestamp p"
        by (simp_all add: attachPass1_def Let_def)
      from linked_attach [OF old assms(2) matchesPass1_near [OF i(2)] c']
        linkedClusters_update(1) [of B incs ?c i] assms(1) st step
      show ?thesis by simp
    qed
  qed
qed

lemma pass2Step_linked:
  assumes "linkedClusters B (fst st)" and "p \<in> set B"
  shows "linkedClusters B (fst (pass2Step p st))"
proof -
  obtain incs pr where st: "st = (incs, pr)" by (cases st)
  let ?f = "findIndex (matchesPass2 (toLowerCase (post_text p)) (extractTopics p)
              (timestamp p)) incs"
  show ?thesis
  proof (cases "post_id p \<in> pr \<or> ?f = None")
    case True
    then have "pass2Step p st = st" by (auto simp add: pass2Step_def st Let_def)
    with assms(1) show ?thesis by simp
  next
    case False
    then obtain i where Some: "?f = Some i" by blast
    let ?c = "attachPass2 p (extractTopics p) (incs ! i)"
    from Some False have step: "pass2Step p st = (incs[i := ?c], insert (post_id p) pr)"
      by (simp add: pass2Step_def st Let_def)
    from Some have i: "i < length incs"
      "matchesPass2 (toLowerCase (post_text p)) (extractTopics p) (timestamp p) (incs ! i)"
      using findIndex_Some by blast+
    from i(1) assms(1) st have old: "set (posts (incs ! i)) \<subseteq> set B"
      "\<exists>m \<in> set (posts (incs ! i)). clusterTimestamp (incs ! i) = timestamp m"
      "\<forall>a \<in> set (posts (incs ! i)). \<forall>b \<in> set (posts (incs ! i)).
         (a, b) \<in> (nearIn (set (posts (incs ! i))))\<^sup>*"
      unfolding linkedClusters_def by (simp_all add: nth_mem)
    have c': "posts ?c = posts (incs ! i) @ [p]"
      "clusterTimestamp ?c = clusterTimestamp (incs ! i) \<or> clusterTimestamp ?c = timestamp p"
      by (simp_all add: attachPass2_def)
    from linked_attach [OF old assms(2) matchesPass2_near [OF i(2)] c']
      linkedClusters_update(1) [of B incs ?c i] assms(1) st step
    show ?thesis by simp
  qed
qed

lemma pass1_linked:
  "linkedClusters B (fst st) \<Longrightarrow> set ps \<subseteq> set B \<Longrightarrow> linkedClusters B (fst (pass1 ps st))"
proof (induction ps arbitrary: st)
  case Nil
  then show ?case by (simp add: pass1_def)
next
  case (Cons p ps)
  from Cons.prems have "linkedClusters B (fst (pass1Step p st))"
    using pass1Step_linked by simp
  from Cons.IH [OF this] Cons.prems(2) show ?case by (simp add: pass1_def)
qed

lemma pass2_linked:
  "linkedClusters B (fst st) \<Longrightarrow> set ps \<subseteq> set B \<Longrightarrow> linkedClusters B (fst (pass2 ps st))"
proof (induction ps arbitrary: st)
  case Nil
  then show ?case by (simp add: pass2_def)
next
  case (Cons p ps)
  from Cons.prems have "linkedClusters B (fst (pass2Step p st))"
    using pass2Step_linked by simp
  from Cons.IH [OF this] Cons.prems(2) show ?case by (simp add: pass2_def)
qed

lemma anchor_linked: "linkedClusters batch (anchorIncidentsToLocations batch)"
proof -
  have "linkedClusters batch (fst (([], {}) :: cluster list \<times> string set))"
    by (simp add: linkedClusters_def)
  from pass1_linked [OF this, of batch] have "linkedClusters batch (fst (pass1 batch ([], {})))"
    by simp
  from pass2_linked [OF this, of batch]
  have "linkedClusters batch (fst (pass2 batch (pass1 batch ([], {}))))" by simp
  then show ?thesis unfolding anchorIncidentsToLocations_def linkedClusters_def by auto
qed

text \<open>Two posts more than 24 hours apart are not linked when they are alone.\<close>

lemma far_pair_not_linked:
  assumes "farApart a b"
  shows "(a, b) \<notin> (nearIn {a, b})\<^sup>*"
proof
  assume "(a, b) \<in> (nearIn {a, b})\<^sup>*"
  then have "b = a"
  proof (induction rule: rtrancl_induct)
    case base
    then show ?case by simp
  next
    case (step y z)
    then have "z \<in> {a, b}" "\<not> farApart a z" by (simp_all add: nearIn_def)
    with assms show ?case by auto
  qed
  with assms show False using farApart_irrefl by simp
qed

text \<open>
  C6, amended: a post is attached to a cluster, in either pass, only if its timestamp is
  within 24 hours of the timestamp the cluster has at that moment, which is the
  timestamp of one of its members. So in every cluster of the result any two posts are
  linked by a chain of posts of that cluster, each at most 24 hours from the next; and
  two posts of a batch that no chain of posts of the batch links, in particular two posts
  more than 24 hours apart with identical location and no post between them, end up in
  different clusters.
\<close>

theorem anchor_same_cluster_linked:
  "(findIndex (matchesPass1 pl pt (timestamp p)) incs = Some i
      \<longrightarrow> hoursDiff (timestamp p) (clusterTimestamp (incs ! i)) \<le> 24)
   \<and> (findIndex (matchesPass2 tx pt (timestamp p)) incs = Some i
      \<longrightarrow> hoursDiff (timestamp p) (clusterTimestamp (incs ! i)) \<le> 24)
   \<and> (\<forall>c \<in> set (anchorIncidentsToLocations batch).
        set (posts c) \<subseteq> set batch
        \<and> (\<exists>m \<in> set (posts c). clusterTimestamp c = timestamp m)
        \<and> (\<forall>a \<in> set (posts c). \<forall>b \<in> set (posts c). (a, b) \<in> (nearIn (set (posts c)))\<^sup>*))
   \<and> ((a, b) \<notin> (nearIn (set batch))\<^sup>*
      \<longrightarrow> (\<forall>c \<in> set (anchorIncidentsToLocations batch).
             \<not> (a \<in> set (posts c) \<and> b \<in> set (posts c))))"
proof (intro conjI impI)
  assume "findIndex (matchesPass1 pl pt (timestamp p)) incs = Some i"
  then show "hoursDiff (timestamp p) (clusterTimestamp (incs ! i)) \<le> 24"
    using findIndex_Some matchesPass1_near by blast
next
  assume "findIndex (matchesPass2 tx pt (timestamp p)) incs = Some i"
  then show "hoursDiff (timestamp p) (clusterTimestamp (incs ! i)) \<le> 24"
    using findIndex_Some matchesPass2_near by blast
next
  show "\<forall>c \<in> set (anchorIncidentsToLocations batch).
        set (posts c) \<subseteq> set batch
        \<and> (\<exists>m \<in> set (posts c). clusterTimestamp c = timestamp m)
        \<and> (\<forall>a \<in> set (posts c). \<forall>b \<in> set (posts c). (a, b) \<in> (nearIn (set (posts c)))\<^sup>*)"
    using anchor_linked [of batch] unfolding linkedClusters_def .
next
  assume no: "(a, b) \<notin> (nearIn (set batch))\<^sup>*"
  show "\<forall>c \<in> set (anchorIncidentsToLocations batch). \<not> (a \<in> set (posts c) \<and> b \<in> set (posts c))"
  proof (intro ballI notI)
    fix c
    assume c: "c \<in> set (anchorIncidentsToLocations batch)"
      and ab: "a \<in> set (posts c) \<and> b \<in> set (posts c)"
    from anchor_linked [of batch] c ab have sub: "set (posts c) \<subseteq> set batch"
      and l: "(a, b) \<in> (nearIn (set (posts c)))\<^sup>*"
      unfolding linkedClusters_def by blast+
    from sub have "(nearIn (set (posts c)))\<^sup>* \<subseteq> (nearIn (set batch))\<^sup>*"
      by (intro rtrancl_mono nearIn_mono)
    with l no show False by blast
  qed
qed

lemma chain_inputs:
  "findIndex (matchesPass1 (extractPostLocation chainPost2) (extractTopics chainPost2)
       (timestamp chainPost2)) valleyFairClusters = Some 0"
  "map posts (anchorIncidentsToLocations chainBatch) = [chainBatch]"
  "farApart chainPost1 chainPost3"
  "map posts (anchorIncidentsToLocations farBatch) = [[chainPost1], [chainPost3]]"
  "chainPost1 \<noteq> chainPost3"
  by code_simp+

theorem anchor_same_cluster_linked_witness:
  "findIndex (matchesPass1 (extractPostLocation chainPost2) (extractTopics chainPost2)
       (timestamp chainPost2)) valleyFairClusters = Some 0
   \<and> hoursDiff (timestamp chainPost2) (clusterTimestamp (valleyFairClusters ! 0)) \<le> 24
   \<and> findIndex (matchesPass2 (toLowerCase (post_text fallbackPost))
        (extractTopics fallbackPost) (timestamp fallbackPost)) ferryClusters = Some 0
   \<and> hoursDiff (timestamp fallbackPost) (clusterTimestamp (ferryClusters ! 0)) \<le> 24
   \<and> length (anchorIncidentsToLocations chainBatch) = 1
   \<and> (chainPost1, chainPost3) \<in> (nearIn (set (posts (anchorIncidentsToLocations chainBatch ! 0))))\<^sup>*
   \<and> farApart chainPost1 chainPost3
   \<and> (chainPost1, chainPost3) \<notin> (nearIn (set farBatch))\<^sup>*
   \<and> length (anchorIncidentsToLocations farBatch) = 2
   \<and> chainPost3 \<notin> set (posts (anchorIncidentsToLocations farBatch ! 0))
   \<and> chainPost1 \<notin> set (posts (anchorIncidentsToLocations farBatch ! 1))"
proof -
  note thm1 = anchor_same_cluster_linked
    [of "extractPostLocation chainPost2" "extractTopics chainPost2" chainPost2
        valleyFairClusters 0 "toLowerCase (post_text fallbackPost)" chainBatch
        chainPost1 chainPost3]
  note thm2 = anchor_same_cluster_linked
    [of "extractPostLocation chainPost2" "extractTopics fallbackPost" fallbackPost
        ferryClusters 0 "toLowerCase (post_text fallbackPost)" farBatch
        chainPost1 chainPost3]
  have h1: "hoursDiff (timestamp chainPost2) (clusterTimestamp (valleyFairClusters ! 0)) \<le> 24"
    using thm1 chain_inputs(1) by blast
  have h2: "hoursDiff (timestamp fallbackPost) (clusterTimestamp (ferryClusters ! 0)) \<le> 24"
    using thm2 fallbackPost_inputs(2) by blast
  have len: "length (anchorIncidentsToLocations chainBatch) = 1"
    using arg_cong [OF chain_inputs(2), of length] by simp
  then obtain c where c: "anchorIncidentsToLocations chainBatch = [c]"
    by (cases "anchorIncidentsToLocations chainBatch") auto
  with chain_inputs(2) have pc: "posts c = chainBatch" by simp
  from thm1 c
  have all: "\<forall>a \<in> set (posts c). \<forall>b \<in> set (posts c). (a, b) \<in> (nearIn (set (posts c)))\<^sup>*"
    by simp
  have "chainPost1 \<in> set (posts c)" "chainPost3 \<in> set (posts c)"
    by (simp_all add: pc chainBatch_def)
  with all have "(chainPost1, chainPost3) \<in> (nearIn (set (posts c)))\<^sup>*" by blast
  then have h3: "(chainPost1, chainPost3)
      \<in> (nearIn (set (posts (anchorIncidentsToLocations chainBatch ! 0))))\<^sup>*"
    by (simp add: c)
  have "set farBatch = {chainPost1, chainPost3}" by (simp add: farBatch_def)
  with far_pair_not_linked [OF chain_inputs(3)]
  have h4: "(chainPost1, chainPost3) \<notin> (nearIn (set farBatch))\<^sup>*" by simp
  have len2: "length (anchorIncidentsToLocations farBatch) = 2"
    using arg_cong [OF chain_inputs(4), of length] by simp
  then obtain c1 c2 where cs: "anchorIncidentsToLocations farBatch = [c1, c2]"
    by (cases "anchorIncidentsToLocations farBatch"; cases "tl (anchorIncidentsToLocations farBatch)")
      auto
  with chain_inputs(4) have p12: "posts c1 = [chainPost1]" "posts c2 = [chainPost3]" by simp_all
  from thm2 h4 cs have "\<not> (chainPost1 \<in> set (posts c1) \<and> chainPost3 \<in> set (posts c1))"
    "\<not> (chainPost1 \<in> set (posts c2) \<and> chainPost3 \<in> set (posts c2))"
    by simp_all
  with p12 have h5: "chainPost3 \<notin> set (posts (anchorIncidentsToLocations farBatch ! 0))"
    "chainPost1 \<notin> set (posts (anchorIncidentsToLocations farBatch ! 1))"
    unfolding cs by simp_all
  from chain_inputs(1) h1 fallbackPost_inputs(2) h2 len h3 chain_inputs(3) h4 len2 h5
  show ?thesis by blast
qed

section \<open>Properties of the stable sort\<close>

lemma set_insertBy: "set (insertBy cmp x ys) = insert x (set ys)"
  by (induction ys) auto

lemma set_sortBy: "set (sortBy cmp xs) = set xs"
  by (induction xs) (simp_all add: sortBy_def set_insertBy)

lemma length_insertBy: "length (insertBy cmp x ys) = Suc (length ys)"
  by (induction ys) auto

lemma length_sortBy: "length (sortBy cmp xs) = length xs"
  by (induction xs) (simp_all add: sortBy_def length_insertBy)

section \<open>Properties of the Narrative Synthesizer\<close>

lemma topPosts_subset: "set (topPosts ps) \<subseteq> set ps"
  using set_take_subset [of 7 "sortBy compareRelevance ps"] by (simp add: topPosts_def set_sortBy)

lemma topPosts_nonempty: "ps \<noteq> [] \<Longrightarrow> topPosts ps \<noteq> []"
proof -
  assume "ps \<noteq> []"
  then have "length (sortBy compareRelevance ps) > 0" by (simp add: length_sortBy)
  then show ?thesis by (auto simp add: topPosts_def)
qed

lemma relevantPosts_subset: "set (relevantPosts ps loc) \<subseteq> set ps"
  using topPosts_subset [of ps] by (auto simp add: relevantPosts_def Let_def)

lemma relevantPosts_nonempty: "ps \<noteq> [] \<Longrightarrow> relevantPosts ps loc \<noteq> []"
  using topPosts_nonempty [of ps] by (simp add: relevantPosts_def Let_def)

lemma citationsOk_empty: "citationsOk R ([], {})"
  by (simp add: citationsOk_def)

lemma cite_ok:
  assumes "citationsOk R (cits, used)" and "p \<in> set R"
  shows "citationsOk R (cite (length cits + 1) p (cits, used))"
proof (cases "url p \<in> used")
  case True
  with assms(1) show ?thesis by (simp add: cite_def)
next
  case False
  then have c: "cite (length cits + 1) p (cits, used)
      = (cits @ [\<lparr>cit_id = length cits + 1, cit_url = url p, cit_username = username (author p)\<rparr>],
         insert (url p) used)"
    by (simp add: cite_def)
  from assms False show ?thesis unfolding c citationsOk_def by auto
qed

lemma whatHappenedBlock_ok:
  assumes "relevant \<noteq> []"
  shows "\<exists>t c u. whatHappenedBlock loc relevant cas ([], [], {}) = Some (t, c, u)
           \<and> citationsOk relevant (c, u)"
proof -
  define primary where "primary = (case List.find (isPrimary loc) relevant of
               Some p \<Rightarrow> Some p
             | None \<Rightarrow> (case relevant of [] \<Rightarrow> None | p # _ \<Rightarrow> Some p))"
  from assms obtain p where p: "primary = Some p" "p \<in> set relevant"
  proof (cases "List.find (isPrimary loc) relevant")
    case None
    with assms that show ?thesis by (cases relevant) (auto simp add: primary_def)
  next
    case (Some q)
    then have "q \<in> set relevant" unfolding find_Some_iff by auto
    with Some that show ?thesis by (simp add: primary_def)
  qed
  have ok: "citationsOk relevant (cite 1 p ([], {}))"
    using cite_ok [OF citationsOk_empty p(2)] by simp
  obtain c u where cu: "cite 1 p ([], {}) = (c, u)" by (cases "cite 1 p ([], {})")
  from p(1) cu have "\<exists>t. whatHappenedBlock loc relevant cas ([], [], {}) = Some (t, c, u)"
    unfolding whatHappenedBlock_def primary_def [symmetric] by (simp add: Let_def)
  with ok cu show ?thesis by auto
qed

lemma suspectBlock_ok:
  assumes "citationsOk R (c, u)"
  shows "citationsOk R (snd (suspectBlock R info (t, c, u)))"
proof -
  define sp where "sp = (case List.find isSuspectPost R of
                Some p \<Rightarrow> Some p
              | None \<Rightarrow> (if length R > 1 then Some (R ! 1) else None))"
  define st where "st = (case sp of None \<Rightarrow> (c, u) | Some p \<Rightarrow> cite (length c + 1) p (c, u))"
  have "citationsOk R st"
  proof (cases sp)
    case None
    with assms show ?thesis by (simp add: st_def)
  next
    case (Some p)
    have "p \<in> set R"
    proof (cases "List.find isSuspectPost R")
      case None
      with Some show ?thesis by (auto simp add: sp_def split: if_splits)
    next
      case (Some q)
      then have "q \<in> set R" unfolding find_Some_iff by auto
      with Some \<open>sp = Some p\<close> show ?thesis by (simp add: sp_def)
    qed
    with Some cite_ok [OF assms] show ?thesis by (simp add: st_def)
  qed
  moreover have "snd (suspectBlock R info (t, c, u)) = st"
    unfolding suspectBlock_def sp_def [symmetric]
    by (simp add: Let_def st_def split: prod.splits)
  ultimately show ?thesis by simp
qed

lemma citationsOk_mono: "citationsOk R st \<Longrightarrow> set R \<subseteq> set S \<Longrightarrow> citationsOk S st"
  unfolding citationsOk_def by blast

text \<open>The citations of every summary come out of a state that satisfies \<open>citationsOk\<close>.\<close>

lemma generateTLDR_ok:
  assumes "ps \<noteq> []"
  shows "\<exists>r u. generateTLDR ps loc = Some r \<and> citationsOk ps (citations r, u)"
proof -
  let ?R = "relevantPosts ps loc"
  let ?top = "topPosts ps"
  define s1 where "s1 = (if collectClauses whatHappenedWords ?top \<noteq> []
         \<and> list_ex (\<lambda>p. includesStr (toLowerCase (post_text p)) ''shooting'') ?top
       then whatHappenedBlock loc ?R (collectClauses casualtyWords ?top) ([], [], {})
       else Some ([], [], {}))"
  have "\<exists>t c u. s1 = Some (t, c, u) \<and> citationsOk ?R (c, u)"
    using whatHappenedBlock_ok [OF relevantPosts_nonempty [OF assms]] citationsOk_empty
    by (simp add: s1_def)
  then obtain t c u where st1: "s1 = Some (t, c, u)" "citationsOk ?R (c, u)" by blast
  define st2 where "st2 = (case collectClauses suspectWords ?top of
                              [] \<Rightarrow> (t, c, u)
                            | info # _ \<Rightarrow> suspectBlock ?R info (t, c, u))"
  have ok2: "citationsOk ?R (snd st2)"
    using st1(2) suspectBlock_ok [OF st1(2)] by (simp add: st2_def split: list.splits)
  have "\<exists>s. generateTLDR ps loc = Some \<lparr>summary = s, citations = fst (snd st2)\<rparr>"
    using assms st1(1)
    unfolding generateTLDR_def Let_def s1_def [symmetric]
    by (simp add: st2_def)
  then obtain s where g: "generateTLDR ps loc = Some \<lparr>summary = s, citations = fst (snd st2)\<rparr>"
    by blast
  from ok2 have "citationsOk ps (fst (snd st2), snd (snd st2))"
    using citationsOk_mono [OF _ relevantPosts_subset] by simp
  then have "citationsOk ps (citations \<lparr>summary = s, citations = fst (snd st2)\<rparr>, snd (snd st2))"
    by simp
  with g show ?thesis by blast
qed

text \<open>
  C8: \<open>generateTLDR\<close> always returns; the URL of each citation is the URL of a post of
  the cluster, the sequence numbers are 1, 2, ... in this order (hence unique and
  ascending from 1), no URL is cited twice, and a cluster without posts yields the
  summary ``No information available.'' with no citation.
\<close>

theorem generateTLDR_citations:
  "\<exists>r. generateTLDR ps loc = Some r
     \<and> (\<forall>c \<in> set (citations r). cit_url c \<in> url ` set ps)
     \<and> map cit_id (citations r) = [1..<Suc (length (citations r))]
     \<and> distinct (map cit_url (citations r))
     \<and> (ps = [] \<longrightarrow> r = \<lparr>summary = ''No information available.'', citations = []\<rparr>)"
proof (cases "ps = []")
  case True
  then show ?thesis by (simp add: generateTLDR_def)
next
  case False
  from generateTLDR_ok [OF False] obtain r u where r: "generateTLDR ps loc = Some r"
    "citationsOk ps (citations r, u)" by blast
  from r(2) have "(\<forall>c \<in> set (citations r). cit_url c \<in> url ` set ps)
     \<and> map cit_id (citations r) = [1..<Suc (length (citations r))]
     \<and> distinct (map cit_url (citations r))"
    unfolding citationsOk_def by auto
  with r(1) False show ?thesis by simp
qed

lemma sapPosts_tldr:
  "generateTLDR sapPosts ''SAP Center''
     = Some \<lparr>summary = ''Shooting reported at SAP Center. [@user1](https://twitter.com/user/status/1) reported the incident. [@user2](https://twitter.com/user/status/2) confirmed suspect in custody. Scene cleared.'',
             citations =
               [\<lparr>cit_id = 1, cit_url = ''https://twitter.com/user/status/1'',
                  cit_username = ''user1''\<rparr>,
                \<lparr>cit_id = 2, cit_url = ''https://twitter.com/user/status/2'',
                  cit_username = ''user2''\<rparr>]\<rparr>"
  by code_simp

lemma sapPosts_urls:
  "map url sapPosts = [''https://twitter.com/user/status/1'', ''https://twitter.com/user/status/2'']"
  by code_simp

theorem generateTLDR_citations_witness:
  "generateTLDR [] ''SAP Center''
     = Some \<lparr>summary = ''No information available.'', citations = []\<rparr>
   \<and> map cit_id (citations (the (generateTLDR sapPosts ''SAP Center''))) = [1, 2]
   \<and> map cit_url (citations (the (generateTLDR sapPosts ''SAP Center''))) = map url sapPosts
   \<and> distinct (map cit_url (citations (the (generateTLDR sapPosts ''SAP Center''))))"
  using generateTLDR_citations [of "[]" "''SAP Center''"]
    generateTLDR_citations [of sapPosts "''SAP Center''"]
  by (auto simp add: sapPosts_tldr sapPosts_urls)

section \<open>Properties of the Incident Assembler\<close>

lemma mset_insertBy: "mset (insertBy cmp x ys) = add_mset x (mset ys)"
  by (induction ys) auto

lemma mset_sortBy: "mset (sortBy cmp xs) = mset xs"
  by (induction xs) (simp_all add: sortBy_def mset_insertBy)

text \<open>Insertion keeps a list sorted when the comparator decides a total preorder.\<close>

lemma sorted_insertBy:
  assumes total: "\<And>a b. R a b \<or> R b a"
    and trans: "\<And>a b c. R a b \<Longrightarrow> R b c \<Longrightarrow> R a c"
    and cmp: "\<And>a b. cmp a b \<le> 0 \<longleftrightarrow> R a b"
    and sorted: "sorted_wrt R ys"
  shows "sorted_wrt R (insertBy cmp x ys)"
  using sorted
proof (induction ys)
  case Nil
  then show ?case by simp
next
  case (Cons y ys)
  show ?case
  proof (cases "cmp x y \<le> 0")
    case True
    then have xy: "R x y" using cmp by blast
    have "R x z" if "z \<in> set ys" for z
      using Cons.prems that trans [OF xy] by auto
    with True xy Cons.prems show ?thesis by auto
  next
    case False
    then have "R y x" using cmp total by blast
    with False Cons show ?thesis by (auto simp add: set_insertBy)
  qed
qed

lemma sorted_sortBy:
  assumes "\<And>a b. R a b \<or> R b a"
    and "\<And>a b c. R a b \<Longrightarrow> R b c \<Longrightarrow> R a c"
    and "\<And>a b. cmp a b \<le> 0 \<longleftrightarrow> R a b"
  shows "sorted_wrt R (sortBy cmp xs)"
proof (induction xs)
  case Nil
  then show ?case by (simp add: sortBy_def)
next
  case (Cons x xs)
  from sorted_insertBy [of R cmp "sortBy cmp xs" x, OF assms Cons]
  show ?case by (simp add: sortBy_def)
qed

lemma compareIncidents_le: "compareIncidents a b \<le> 0 \<longleftrightarrow> ranksBefore a b"
  by (auto simp add: compareIncidents_def ranksBefore_def Let_def)

lemma ranksBefore_total: "ranksBefore a b \<or> ranksBefore b a"
  by (auto simp add: ranksBefore_def)

lemma ranksBefore_trans: "ranksBefore a b \<Longrightarrow> ranksBefore b c \<Longrightarrow> ranksBefore a c"
  by (auto simp add: ranksBefore_def)

lemma mergeIncidents_sorted: "sorted_wrt ranksBefore (mergeIncidents hs ls)"
  unfolding mergeIncidents_def
  using sorted_sortBy [of ranksBefore compareIncidents]
    ranksBefore_total ranksBefore_trans compareIncidents_le
  by blast

lemma mergeIncidents_mset: "mset (mergeIncidents hs ls) = mset hs + mset ls"
  by (simp add: mergeIncidents_def mset_sortBy)

subsection \<open>The loop over the groups never throws\<close>

lemma groupSkipped_empty: "groupSkipped []"
  by (simp add: groupSkipped_def gateSkips_def isReliable_def analyzeSentiment_def
      positiveCount_def negativeCount_def neutralCount_def Let_def)

lemma groupIncident_total: "\<exists>r. groupIncident ex g = Inr r"
proof -
  obtain ps anchored where g: "g = (ps, anchored)" by (cases g)
  show ?thesis
  proof (cases "groupSkipped ps")
    case True
    then show ?thesis by (simp add: groupIncident_def g)
  next
    case False
    then have ne: "ps \<noteq> []" using groupSkipped_empty by auto
    let ?loc = "if anchored \<noteq> [] then anchored else ex ps"
    from generateTLDR_ok [OF ne, of ?loc] obtain t where "generateTLDR ps ?loc = Some t"
      by blast
    moreover from ne obtain m where "mostRecent ps = Some m"
      by (cases ps) (auto simp add: mostRecent_def)
    ultimately show ?thesis using False by (simp add: groupIncident_def g Let_def)
  qed
qed

lemma collectIncidents_total: "\<exists>l. collectIncidents ex gs = Inr l"
proof (induction gs)
  case Nil
  then show ?case by simp
next
  case (Cons g gs)
  from groupIncident_total [of ex g] obtain r where "groupIncident ex g = Inr r" by blast
  with Cons show ?case by auto
qed

lemma liveIncidents_total: "\<exists>l. liveIncidents ex ps = Inr l"
  unfolding liveIncidents_def by (rule collectIncidents_total)

lemma trim_Nil: "trim [] = []"
  by (simp add: trim_def)

text \<open>
  C2, evaluated on the code, with a catalogue of a low incident followed by a critical
  one. A custom query whose search returns no tweet makes \<open>fetchRealTimeIncidents\<close>
  return no incident at all: the catalogue incidents, fetched just before, are dropped,
  where the sorted concatenation holds both. On the default path, when no post with
  engagement is found, the catalogue incidents come back in catalogue order, where the
  sorted concatenation puts the critical one first.
\<close>

theorem fetchRealTimeIncidents_early_returns:
  "fetchRealTimeIncidents (\<lambda>ps. ''Bay Area, CA'')
       [exampleIncident low 900, exampleIncident critical 5] ''shooting'' (Some []) [] [] []
     = Inr []
   \<and> fetchRealTimeIncidents (\<lambda>ps. ''Bay Area, CA'')
       [exampleIncident low 900, exampleIncident critical 5] [] None [] [] []
     = Inr [exampleIncident low 900, exampleIncident critical 5]
   \<and> mergeIncidents [exampleIncident low 900, exampleIncident critical 5] []
     = [exampleIncident critical 5, exampleIncident low 900]"
  by code_simp

text \<open>
  Past the two early returns the result is as the merge is meant to be: when a custom
  query returns at least one tweet, and on the default path when at least one post
  survives the engagement filter, the loop over the groups builds the live incidents
  without throwing and the result is the stable sort of the catalogue incidents followed
  by the live incidents; this list holds every incident of both groups as often as it
  occurs there (nothing is deduplicated across the groups) and is ordered by descending
  severity rank, then by descending likes plus retweets.
\<close>

lemma fetchRealTimeIncidents_merge:
  "(trim query \<noteq> [] \<and> tweets \<noteq> [] \<longrightarrow>
      (\<exists>live. liveIncidents ex (filterLowEngagementPosts tweets) = Inr live
         \<and> fetchRealTimeIncidents ex hardcoded query (Some tweets) city police general
             = Inr (mergeIncidents hardcoded live)))
   \<and> (trim query = [] \<and> defaultPosts city police general \<noteq> [] \<longrightarrow>
      (\<exists>live. liveIncidents ex (defaultPosts city police general) = Inr live
         \<and> fetchRealTimeIncidents ex hardcoded query searchResult city police general
             = Inr (mergeIncidents hardcoded live)))
   \<and> mset (mergeIncidents hardcoded incidents) = mset hardcoded + mset incidents
   \<and> sorted_wrt ranksBefore (mergeIncidents hardcoded incidents)"
proof (intro conjI impI)
  assume h: "trim query \<noteq> [] \<and> tweets \<noteq> []"
  then have q: "query \<noteq> []" using trim_Nil by auto
  from liveIncidents_total obtain live
    where live: "liveIncidents ex (filterLowEngagementPosts tweets) = Inr live" by blast
  with h q have "fetchRealTimeIncidents ex hardcoded query (Some tweets) city police general
             = Inr (mergeIncidents hardcoded live)"
    by (simp add: fetchRealTimeIncidents_def customQueryPath_def)
  with live show "\<exists>live. liveIncidents ex (filterLowEngagementPosts tweets) = Inr live
         \<and> fetchRealTimeIncidents ex hardcoded query (Some tweets) city police general
             = Inr (mergeIncidents hardcoded live)"
    by blast
next
  assume h: "trim query = [] \<and> defaultPosts city police general \<noteq> []"
  from liveIncidents_total obtain live
    where live: "liveIncidents ex (defaultPosts city police general) = Inr live" by blast
  with h have "fetchRealTimeIncidents ex hardcoded query searchResult city police general
             = Inr (mergeIncidents hardcoded live)"
    by (simp add: fetchRealTimeIncidents_def defaultPath_def Let_def)
  with live show "\<exists>live. liveIncidents ex (defaultPosts city police general) = Inr live
         \<and> fetchRealTimeIncidents ex hardcoded query searchResult city police general
             = Inr (mergeIncidents hardcoded live)"
    by blast
next
  show "mset (mergeIncidents hardcoded incidents) = mset hardcoded + mset incidents"
    by (rule mergeIncidents_mset)
next
  show "sorted_wrt ranksBefore (mergeIncidents hardcoded incidents)"
    by (rule mergeIncidents_sorted)
qed

text \<open>One tweet about a shooting, merged between the two catalogue incidents.\<close>

lemma fetchRealTimeIncidents_example:
  "map (\<lambda>i. (severity i, incidentLocation i, incidentReactions i))
     (projr (fetchRealTimeIncidents (\<lambda>ps. ''Bay Area, CA'')
        [exampleIncident low 900, exampleIncident critical 5] ''shooting''
        (Some [examplePost ''1'' ''Shooting at SAP Center'' 10 0]) [] [] []))
   = [(critical, ''Laney College, Oakland'', 5), (high, ''SAP Center'', 10),
      (low, ''Laney College, Oakland'', 900)]"
  by code_simp

end
